theory Spec2Isabelle
  imports Main "HOL-Library.Word"
begin

unbundle bit_operations_syntax

section \<open>Data model of the LCD driver (n3310.c)\<close>

text \<open>
  The driver is written for avr-gcc: \<open>byte\<close> is \<open>unsigned char\<close> (8 bits), \<open>int\<close> has
  16 bits. Bytes are \<open>8 word\<close>; a byte promoted to \<open>int\<close> is \<open>uint\<close> of it. The
  \<open>int\<close> variables (the two watermarks, the cursor, the loop indices) are modelled as
  \<open>int\<close>: the driver only compares and assigns them, and adds small constants to
  values between -84 and 515, far from the 16-bit limits. The \<open>int\<close> variables of
  \<open>LcdLine\<close> and \<open>LcdBars\<close> are described with these functions.
\<close>

type_synonym byte = "8 word"

text \<open>
  Modelled from the spec: the macros \<open>LCD_X_RES\<close>, \<open>LCD_Y_RES\<close> and \<open>LCD_CACHE_SIZE\<close>
  of the header n3310.h, which is not among the sources. The cache holds width times
  height divided by 8 bytes; the values are the ones the driver itself uses (the literal
  84 in the index arithmetic of \<open>LcdPixel\<close>, \<open>LcdGotoXYFont\<close> and \<open>LcdChr\<close>, the
  comment "84*48 bits or 504 bytes" at the declaration of the cache).
\<close>

abbreviation LCD_X_RES :: int where "LCD_X_RES \<equiv> 84"
abbreviation LCD_Y_RES :: int where "LCD_Y_RES \<equiv> 48"
abbreviation LCD_CACHE_SIZE :: int where "LCD_CACHE_SIZE \<equiv> 504"

text \<open>
  Modelled from the spec: the enumerations and return codes of the same header. A byte
  sent is a command or data; a pixel mode is off, on or xor; a font size is 1x or 2x; a
  function returns \<open>OK\<close>, \<open>OK_WITH_WRAP\<close> (the cursor wrapped past the end of the
  cache) or \<open>OUT_OF_BORDER\<close>.
\<close>

datatype LcdCmdData = LCD_CMD | LCD_DATA
datatype LcdPixelMode = PIXEL_OFF | PIXEL_ON | PIXEL_XOR
datatype LcdFontSize = FONT_1X | FONT_2X
datatype response = OK | OUT_OF_BORDER | OK_WITH_WRAP

text \<open>
  The static variables of the driver. \<open>Written\<close> is a history variable and not a
  variable of the program: it lists, oldest first, every index of \<open>LcdCache\<close> the code
  has stored to.
\<close>

record lcd_state =
  LcdCache :: "byte list"
  LoWaterMark :: int
  HiWaterMark :: int
  LcdCacheIdx :: int
  UpdateLcd :: bool
  Written :: "int list"

text \<open>
  \<open>LcdCache\<close> is an array of \<open>LCD_CACHE_SIZE\<close> bytes. An access outside it is
  undefined behaviour in C; the model stops there with the offending index. The same
  holds for a read past the end of an array handed to the driver (a string without its
  terminator, too few bar values, an image of fewer bytes than the cache).
\<close>

datatype fault = OutOfBounds int | ReadPastEnd

definition cache_read :: "int \<Rightarrow> lcd_state \<Rightarrow> fault + byte" where
  "cache_read i s =
     (if 0 \<le> i \<and> i < LCD_CACHE_SIZE then Inr (LcdCache s ! nat i)
      else Inl (OutOfBounds i))"

definition cache_write :: "int \<Rightarrow> byte \<Rightarrow> lcd_state \<Rightarrow> fault + lcd_state" where
  "cache_write i v s =
     (if 0 \<le> i \<and> i < LCD_CACHE_SIZE
      then Inr (s\<lparr>LcdCache := (LcdCache s)[nat i := v], Written := Written s @ [i]\<rparr>)
      else Inl (OutOfBounds i))"

text \<open>Sequencing of two steps, the second skipped when the first faults.\<close>

definition and_then :: "fault + 'a \<Rightarrow> ('a \<Rightarrow> fault + 'b) \<Rightarrow> fault + 'b" where
  "and_then m f = (case m of Inl e \<Rightarrow> Inl e | Inr v \<Rightarrow> f v)"

section \<open>LcdClear\<close>

text \<open>\<open>memset\<close> over the whole array, the dirty range set to the whole cache.\<close>

definition LcdClear :: "lcd_state \<Rightarrow> lcd_state" where
  "LcdClear s =
     s\<lparr>LcdCache := replicate (nat LCD_CACHE_SIZE) 0,
       LoWaterMark := 0,
       HiWaterMark := LCD_CACHE_SIZE - 1,
       UpdateLcd := True,
       Written := Written s @ [0 .. LCD_CACHE_SIZE - 1]\<rparr>"

section \<open>LcdPixel\<close>

definition LcdPixel ::
  "byte \<Rightarrow> byte \<Rightarrow> LcdPixelMode \<Rightarrow> lcd_state \<Rightarrow> fault + (response \<times> lcd_state)" where
  "LcdPixel x y mode s =
     (if uint x \<ge> LCD_X_RES \<or> uint y \<ge> LCD_Y_RES then Inr (OUT_OF_BORDER, s)
      else
        let index = ((uint y div 8) * 84) + uint x;
            offset = y - ((y div 8) * 8)
        in and_then (cache_read index s) (\<lambda>data.
             let data1 = (case mode of
                            PIXEL_OFF \<Rightarrow> data AND NOT (push_bit (unat offset) 1)
                          | PIXEL_ON \<Rightarrow> data OR push_bit (unat offset) 1
                          | PIXEL_XOR \<Rightarrow> data XOR push_bit (unat offset) 1)
             in and_then (cache_write index data1 s) (\<lambda>s1.
                  let s2 = (if index < LoWaterMark s1 then s1\<lparr>LoWaterMark := index\<rparr> else s1);
                      s3 = (if index > HiWaterMark s2 then s2\<lparr>HiWaterMark := index\<rparr> else s2)
                  in Inr (OK, s3))))"

section \<open>LcdUpdate\<close>

text \<open>
  \<open>LcdSend\<close> hands one byte to the display controller, tagged as command or data. The
  port and SPI registers are outside the model: a call is the item it puts on the wire,
  and \<open>LcdUpdate\<close> returns the items in the order sent.
\<close>

type_synonym wire = "(LcdCmdData \<times> byte) list"

definition LcdSend :: "byte \<Rightarrow> LcdCmdData \<Rightarrow> wire" where
  "LcdSend data cd = [(cd, data)]"

definition data_bytes :: "wire \<Rightarrow> byte list" where
  "data_bytes w = map snd (filter (\<lambda>item. fst item = LCD_DATA) w)"

text \<open>The two clamping statements at the head of \<open>LcdUpdate\<close>.\<close>

definition clamp_mark :: "int \<Rightarrow> int" where
  "clamp_mark m =
     (if m < 0 then 0
      else if m \<ge> LCD_CACHE_SIZE then LCD_CACHE_SIZE - 1
      else m)"

definition clamp_marks :: "lcd_state \<Rightarrow> lcd_state" where
  "clamp_marks s =
     s\<lparr>LoWaterMark := clamp_mark (LoWaterMark s),
       HiWaterMark := clamp_mark (HiWaterMark s)\<rparr>"

text \<open>The transfer loop for the original display: \<open>for (i = LoWaterMark; i <= HiWaterMark; i++)\<close>.\<close>

function update_loop :: "int \<Rightarrow> lcd_state \<Rightarrow> fault + wire" where
  "update_loop i s =
     (if i \<le> HiWaterMark s
      then and_then (cache_read i s) (\<lambda>d.
             and_then (update_loop (i + 1) s) (\<lambda>rest.
               Inr (LcdSend d LCD_DATA @ rest)))
      else Inr [])"
  by pat_completeness auto
termination
  by (relation "measure (\<lambda>(i, s). nat (HiWaterMark s + 1 - i))") auto

text \<open>
  The transfer loop under \<open>CHINA_LCD\<close>: the driver counts the column \<open>x\<close> itself and
  sends the address of the next row whenever \<open>x\<close> reaches \<open>LCD_X_RES\<close>.
\<close>

function update_loop_china :: "int \<Rightarrow> byte \<Rightarrow> byte \<Rightarrow> lcd_state \<Rightarrow> fault + wire" where
  "update_loop_china i x y s =
     (if i \<le> HiWaterMark s
      then and_then (cache_read i s) (\<lambda>d.
             let x1 = x + 1 in
             if uint x1 \<ge> LCD_X_RES
             then and_then (update_loop_china (i + 1) 0 (y + 1) s) (\<lambda>rest.
                    Inr (LcdSend d LCD_DATA @ LcdSend 0x80 LCD_CMD
                         @ LcdSend (0x40 OR (y + 1)) LCD_CMD @ rest))
             else and_then (update_loop_china (i + 1) x1 y s) (\<lambda>rest.
                    Inr (LcdSend d LCD_DATA @ rest)))
      else Inr [])"
  by pat_completeness auto
termination
  by (relation "measure (\<lambda>(i, x, y, s). nat (HiWaterMark s + 1 - i))") auto

text \<open>
  \<open>LcdUpdate\<close>; the parameter \<open>china\<close> says whether the driver was compiled with
  \<open>CHINA_LCD\<close> defined. After the clamping both watermarks lie between 0 and 503, where
  \<open>%\<close> and \<open>/\<close> of C agree with \<open>mod\<close> and \<open>div\<close>.
\<close>

definition LcdUpdate :: "bool \<Rightarrow> lcd_state \<Rightarrow> fault + (wire \<times> lcd_state)" where
  "LcdUpdate china s =
     (let s1 = clamp_marks s;
          sent = (if china
                  then
                    let x = (word_of_int (LoWaterMark s1 mod LCD_X_RES) :: byte);
                        y = (word_of_int (LoWaterMark s1 div LCD_X_RES + 1) :: byte)
                    in and_then (update_loop_china (LoWaterMark s1) x y s1) (\<lambda>body.
                         Inr (LcdSend (0x80 OR x) LCD_CMD @ LcdSend (0x40 OR y) LCD_CMD
                              @ body
                              @ LcdSend 0x21 LCD_CMD @ LcdSend 0x45 LCD_CMD
                              @ LcdSend 0x20 LCD_CMD))
                  else
                    and_then (update_loop (LoWaterMark s1) s1) (\<lambda>body.
                      Inr (LcdSend (word_of_int (0x80 OR (LoWaterMark s1 mod LCD_X_RES))) LCD_CMD
                           @ LcdSend (word_of_int (0x40 OR (LoWaterMark s1 div LCD_X_RES))) LCD_CMD
                           @ body)))
      in and_then sent (\<lambda>w.
           Inr (w, s1\<lparr>LoWaterMark := LCD_CACHE_SIZE - 1,
                      HiWaterMark := 0,
                      UpdateLcd := False\<rparr>)))"

section \<open>LcdGotoXYFont and LcdChr\<close>

definition LcdGotoXYFont :: "byte \<Rightarrow> byte \<Rightarrow> lcd_state \<Rightarrow> response \<times> lcd_state" where
  "LcdGotoXYFont x y s =
     (if x > 13 \<or> y > 5 then (OUT_OF_BORDER, s)
      else (OK, s\<lparr>LcdCacheIdx := uint x * 6 + uint y * 84\<rparr>))"

text \<open>
  The glyph table \<open>FontLookup\<close> lives in the missing header; the functions take it as
  a parameter, \<open>font c i\<close> standing for \<open>pgm_read_byte(&(FontLookup[c][i]))\<close>.
\<close>

type_synonym font_table = "nat \<Rightarrow> nat \<Rightarrow> byte"

text \<open>The \<open>FONT_1X\<close> loop: \<open>LcdCache[LcdCacheIdx++] = glyph << 1\<close> for \<open>i\<close> from 0 to 4.\<close>

function chr_loop_1x :: "font_table \<Rightarrow> byte \<Rightarrow> nat \<Rightarrow> lcd_state \<Rightarrow> fault + lcd_state" where
  "chr_loop_1x font ch i s =
     (if i < 5
      then and_then (cache_write (LcdCacheIdx s) (push_bit 1 (font (unat ch) i)) s) (\<lambda>s1.
             chr_loop_1x font ch (i + 1) (s1\<lparr>LcdCacheIdx := LcdCacheIdx s1 + 1\<rparr>))
      else Inr s)"
  by pat_completeness auto
termination
  by (relation "measure (\<lambda>(font, ch, i, s). 5 - i)") auto

text \<open>The doubling of one nibble: \<open>(c & 0x01) * 3 | (c & 0x02) * 6 | (c & 0x04) * 12 | (c & 0x08) * 24\<close>.\<close>

definition stretch :: "byte \<Rightarrow> byte" where
  "stretch c = (c AND 0x01) * 3 OR (c AND 0x02) * 6 OR (c AND 0x04) * 12 OR (c AND 0x08) * 24"

text \<open>The \<open>FONT_2X\<close> loop, with the local \<open>tmpIdx\<close> as an argument.\<close>

function chr_loop_2x ::
  "font_table \<Rightarrow> byte \<Rightarrow> nat \<Rightarrow> int \<Rightarrow> lcd_state \<Rightarrow> fault + lcd_state" where
  "chr_loop_2x font ch i tmpIdx s =
     (if i < 5
      then
        let c = push_bit 1 (font (unat ch) i);
            b1 = stretch c;
            b2 = stretch (drop_bit 4 c)
        in and_then (cache_write tmpIdx b1 s) (\<lambda>s1.
           and_then (cache_write (tmpIdx + 1) b1 s1) (\<lambda>s2.
           and_then (cache_write (tmpIdx + 2 + 82) b2 s2) (\<lambda>s3.
           and_then (cache_write (tmpIdx + 2 + 83) b2 s3) (\<lambda>s4.
             chr_loop_2x font ch (i + 1) (tmpIdx + 2) s4))))
      else Inr s)"
  by pat_completeness auto
termination
  by (relation "measure (\<lambda>(font, ch, i, tmpIdx, s). 5 - i)") auto

text \<open>The common tail of \<open>LcdChr\<close>: the upper watermark, the spacing byte, the cursor.\<close>

definition chr_finish :: "lcd_state \<Rightarrow> fault + (response \<times> lcd_state)" where
  "chr_finish s =
     (let s1 = (if LcdCacheIdx s > HiWaterMark s
                then s\<lparr>HiWaterMark := LcdCacheIdx s\<rparr> else s)
      in and_then (cache_write (LcdCacheIdx s1) 0x00 s1) (\<lambda>s2.
           if LcdCacheIdx s2 = LCD_CACHE_SIZE - 1
           then Inr (OK_WITH_WRAP, s2\<lparr>LcdCacheIdx := 0\<rparr>)
           else Inr (OK, s2\<lparr>LcdCacheIdx := LcdCacheIdx s2 + 1\<rparr>)))"

text \<open>
  \<open>LcdChr\<close>. In the \<open>FONT_2X\<close> branch the cursor is at least 84 when
  \<open>(LcdCacheIdx + 11) % LCD_CACHE_SIZE\<close> is computed, so \<open>mod\<close> is the \<open>%\<close> of C.
\<close>

definition LcdChr ::
  "font_table \<Rightarrow> LcdFontSize \<Rightarrow> byte \<Rightarrow> lcd_state \<Rightarrow> fault + (response \<times> lcd_state)" where
  "LcdChr font fsize ch s =
     (let s1 = (if LcdCacheIdx s < LoWaterMark s
                then s\<lparr>LoWaterMark := LcdCacheIdx s\<rparr> else s);
          ch1 = (if ch \<ge> 0x20 \<and> ch \<le> 0x7F then ch - 32
                 else if ch \<ge> 0xC0 then ch - 96
                 else 95)
      in case fsize of
           FONT_1X \<Rightarrow> and_then (chr_loop_1x font ch1 0 s1) chr_finish
         | FONT_2X \<Rightarrow>
             let tmpIdx = LcdCacheIdx s1 - 84;
                 s2 = (if tmpIdx < LoWaterMark s1
                       then s1\<lparr>LoWaterMark := tmpIdx\<rparr> else s1)
             in if tmpIdx < 0 then Inr (OUT_OF_BORDER, s2)
                else and_then (chr_loop_2x font ch1 0 tmpIdx s2) (\<lambda>s3.
                       chr_finish
                         (s3\<lparr>LcdCacheIdx := (LcdCacheIdx s3 + 11) mod LCD_CACHE_SIZE\<rparr>)))"

section \<open>LcdCircle\<close>

text \<open>
  \<open>xc\<close>, \<open>yc\<close> and \<open>p\<close> are \<open>signed char\<close>: 8-bit words read through \<open>sint\<close>, an
  assignment keeping the low 8 bits of the \<open>int\<close> value (the conversion avr-gcc
  performs). The coordinates handed to \<open>LcdPixel\<close> are cut to a byte in the same
  way, so the sums and differences are those of \<open>8 word\<close>.
\<close>

definition plot8 ::
  "byte \<Rightarrow> byte \<Rightarrow> byte \<Rightarrow> byte \<Rightarrow> LcdPixelMode \<Rightarrow> lcd_state \<Rightarrow> fault + lcd_state" where
  "plot8 x y xc yc mode s =
     and_then (LcdPixel (x + xc) (y + yc) mode s) (\<lambda>(r1, s1).
     and_then (LcdPixel (x + xc) (y - yc) mode s1) (\<lambda>(r2, s2).
     and_then (LcdPixel (x - xc) (y + yc) mode s2) (\<lambda>(r3, s3).
     and_then (LcdPixel (x - xc) (y - yc) mode s3) (\<lambda>(r4, s4).
     and_then (LcdPixel (x + yc) (y + xc) mode s4) (\<lambda>(r5, s5).
     and_then (LcdPixel (x + yc) (y - xc) mode s5) (\<lambda>(r6, s6).
     and_then (LcdPixel (x - yc) (y + xc) mode s6) (\<lambda>(r7, s7).
     and_then (LcdPixel (x - yc) (y - xc) mode s7) (\<lambda>(r8, s8).
       Inr s8))))))))"

text \<open>The loop \<open>while (xc <= yc)\<close>; \<open>None\<close> stands for a loop that never ends.\<close>

partial_function (option) circle_loop ::
  "byte \<Rightarrow> byte \<Rightarrow> LcdPixelMode \<Rightarrow> byte \<Rightarrow> byte \<Rightarrow> byte \<Rightarrow> lcd_state
     \<Rightarrow> (fault + lcd_state) option" where
  "circle_loop x y mode xc yc p s =
     (if sint xc \<le> sint yc
      then (case plot8 x y xc yc mode s of
              Inl e \<Rightarrow> Some (Inl e)
            | Inr s1 \<Rightarrow>
                if sint p < 0
                then circle_loop x y mode (xc + 1) yc (p + (push_bit 2 xc + 6)) s1
                else circle_loop x y mode (xc + 1) (yc - 1)
                       (p + (push_bit 2 (xc - yc) + 10)) s1)
      else Some (Inr s))"

definition LcdCircle ::
  "byte \<Rightarrow> byte \<Rightarrow> byte \<Rightarrow> LcdPixelMode \<Rightarrow> lcd_state
     \<Rightarrow> (fault + (response \<times> lcd_state)) option" where
  "LcdCircle x y radius mode s =
     (if uint x \<ge> LCD_X_RES \<or> uint y \<ge> LCD_Y_RES then Some (Inr (OUT_OF_BORDER, s))
      else
        case circle_loop x y mode 0 radius (3 - push_bit 1 radius) s of
          None \<Rightarrow> None
        | Some (Inl e) \<Rightarrow> Some (Inl e)
        | Some (Inr s1) \<Rightarrow> Some (Inr (OK, s1\<lparr>UpdateLcd := True\<rparr>)))"

section \<open>LcdLine\<close>

text \<open>
  The two loops of \<open>LcdLine\<close>, the first for \<open>dx > dy\<close>. \<open>dx\<close>, \<open>dy\<close>, \<open>stepx\<close>,
  \<open>stepy\<close> and \<open>fraction\<close> are \<open>int\<close>: \<open>dx\<close> and \<open>dy\<close> are twice the size of a
  difference of two bytes, at most 510, and \<open>fraction\<close> moves by them. \<open>x1\<close> and
  \<open>y1\<close> are bytes: \<open>x1 += stepx\<close> keeps the low 8 bits of the sum. The driver leaves
  with \<open>if (response) return response\<close>, that is when the code is not \<open>OK\<close>, the code 0;
  a loop that ends in the normal way hands back \<open>OK\<close>. \<open>None\<close> stands for a loop that
  never ends.
\<close>

partial_function (option) line_loop_x ::
  "int \<Rightarrow> int \<Rightarrow> int \<Rightarrow> int \<Rightarrow> byte \<Rightarrow> LcdPixelMode \<Rightarrow> int \<Rightarrow> byte \<Rightarrow> byte \<Rightarrow> lcd_state
     \<Rightarrow> (fault + (response \<times> lcd_state)) option" where
  "line_loop_x dx dy stepx stepy x2 mode fraction x1 y1 s =
     (if x1 \<noteq> x2
      then
        let y1a = (if fraction \<ge> 0 then word_of_int (uint y1 + stepy) else y1);
            fraction1 = (if fraction \<ge> 0 then fraction - dx else fraction);
            x1a = (word_of_int (uint x1 + stepx) :: byte);
            fraction2 = fraction1 + dy
        in (case LcdPixel x1a y1a mode s of
              Inl e \<Rightarrow> Some (Inl e)
            | Inr (response, s1) \<Rightarrow>
                if response \<noteq> OK then Some (Inr (response, s1))
                else line_loop_x dx dy stepx stepy x2 mode fraction2 x1a y1a s1)
      else Some (Inr (OK, s)))"

partial_function (option) line_loop_y ::
  "int \<Rightarrow> int \<Rightarrow> int \<Rightarrow> int \<Rightarrow> byte \<Rightarrow> LcdPixelMode \<Rightarrow> int \<Rightarrow> byte \<Rightarrow> byte \<Rightarrow> lcd_state
     \<Rightarrow> (fault + (response \<times> lcd_state)) option" where
  "line_loop_y dx dy stepx stepy y2 mode fraction x1 y1 s =
     (if y1 \<noteq> y2
      then
        let x1a = (if fraction \<ge> 0 then word_of_int (uint x1 + stepx) else x1);
            fraction1 = (if fraction \<ge> 0 then fraction - dy else fraction);
            y1a = (word_of_int (uint y1 + stepy) :: byte);
            fraction2 = fraction1 + dx
        in (case LcdPixel x1a y1a mode s of
              Inl e \<Rightarrow> Some (Inl e)
            | Inr (response, s1) \<Rightarrow>
                if response \<noteq> OK then Some (Inr (response, s1))
                else line_loop_y dx dy stepx stepy y2 mode fraction2 x1a y1a s1)
      else Some (Inr (OK, s)))"

text \<open>
  \<open>LcdLine\<close>: the signs and doubled sizes of the two differences, the first point, one
  of the two loops, and the changed flag when no point was rejected.
\<close>

definition LcdLine ::
  "byte \<Rightarrow> byte \<Rightarrow> byte \<Rightarrow> byte \<Rightarrow> LcdPixelMode \<Rightarrow> lcd_state
     \<Rightarrow> (fault + (response \<times> lcd_state)) option" where
  "LcdLine x1 y1 x2 y2 mode s =
     (let dy0 = uint y2 - uint y1;
          dx0 = uint x2 - uint x1;
          stepy = (if dy0 < 0 then - 1 else 1);
          dy1 = (if dy0 < 0 then - dy0 else dy0);
          stepx = (if dx0 < 0 then - 1 else 1);
          dx1 = (if dx0 < 0 then - dx0 else dx0);
          dx = dx1 * 2;
          dy = dy1 * 2
      in case LcdPixel x1 y1 mode s of
           Inl e \<Rightarrow> Some (Inl e)
         | Inr (response, s1) \<Rightarrow>
             if response \<noteq> OK then Some (Inr (response, s1))
             else
               (case (if dx > dy
                      then line_loop_x dx dy stepx stepy x2 mode (dy - dx div 2) x1 y1 s1
                      else line_loop_y dx dy stepx stepy y2 mode (dx - dy div 2) x1 y1 s1) of
                  None \<Rightarrow> None
                | Some (Inl e) \<Rightarrow> Some (Inl e)
                | Some (Inr (response, s2)) \<Rightarrow>
                    if response \<noteq> OK then Some (Inr (response, s2))
                    else Some (Inr (OK, s2\<lparr>UpdateLcd := True\<rparr>))))"

section \<open>LcdSingleBar and LcdBars\<close>

text \<open>
  The inner loop of \<open>LcdSingleBar\<close>,
  \<open>for (tmpIdxX = baseX; tmpIdxX < (baseX + width); tmpIdxX++)\<close>: the bound is an
  \<open>int\<close> sum, the counter a byte. Then the outer loop,
  \<open>for (tmpIdxY = tmp; tmpIdxY <= baseY; tmpIdxY++)\<close>. Both leave with the code of the
  first rejected point.
\<close>

partial_function (option) bar_row ::
  "byte \<Rightarrow> byte \<Rightarrow> byte \<Rightarrow> byte \<Rightarrow> LcdPixelMode \<Rightarrow> lcd_state
     \<Rightarrow> (fault + (response \<times> lcd_state)) option" where
  "bar_row tmpIdxX tmpIdxY baseX width mode s =
     (if uint tmpIdxX < uint baseX + uint width
      then (case LcdPixel tmpIdxX tmpIdxY mode s of
              Inl e \<Rightarrow> Some (Inl e)
            | Inr (response, s1) \<Rightarrow>
                if response \<noteq> OK then Some (Inr (response, s1))
                else bar_row (tmpIdxX + 1) tmpIdxY baseX width mode s1)
      else Some (Inr (OK, s)))"

partial_function (option) bar_rows ::
  "byte \<Rightarrow> byte \<Rightarrow> byte \<Rightarrow> byte \<Rightarrow> LcdPixelMode \<Rightarrow> lcd_state
     \<Rightarrow> (fault + (response \<times> lcd_state)) option" where
  "bar_rows tmpIdxY baseX baseY width mode s =
     (if tmpIdxY \<le> baseY
      then (case bar_row baseX tmpIdxY baseX width mode s of
              None \<Rightarrow> None
            | Some (Inl e) \<Rightarrow> Some (Inl e)
            | Some (Inr (response, s1)) \<Rightarrow>
                if response \<noteq> OK then Some (Inr (response, s1))
                else bar_rows (tmpIdxY + 1) baseX baseY width mode s1)
      else Some (Inr (OK, s)))"

definition LcdSingleBar ::
  "byte \<Rightarrow> byte \<Rightarrow> byte \<Rightarrow> byte \<Rightarrow> LcdPixelMode \<Rightarrow> lcd_state
     \<Rightarrow> (fault + (response \<times> lcd_state)) option" where
  "LcdSingleBar baseX baseY height width mode s =
     (if uint baseX \<ge> LCD_X_RES \<or> uint baseY \<ge> LCD_Y_RES then Some (Inr (OUT_OF_BORDER, s))
      else
        let tmp = (if height > baseY then 0 else baseY - height + 1)
        in (case bar_rows tmp baseX baseY width mode s of
              None \<Rightarrow> None
            | Some (Inl e) \<Rightarrow> Some (Inl e)
            | Some (Inr (response, s1)) \<Rightarrow>
                if response \<noteq> OK then Some (Inr (response, s1))
                else Some (Inr (OK, s1\<lparr>UpdateLcd := True\<rparr>))))"

text \<open>
  The macros \<open>EMPTY_SPACE_BARS\<close>, \<open>BAR_X\<close> and \<open>BAR_Y\<close> of the missing header are
  parameters of \<open>LcdBars\<close>. The column \<open>((width + EMPTY_SPACE_BARS) * b) + BAR_X\<close> and
  the height \<open>data[b] * multiplier\<close> are \<open>int\<close> values of which a byte is kept, the low
  8 bits, which are the same whether the sums and products are taken in 16 bits or
  exactly. \<open>data\<close> is the array handed over; reading \<open>data[b]\<close> past its end is a
  fault.
\<close>

record bar_layout =
  EMPTY_SPACE_BARS :: int
  BAR_X :: int
  BAR_Y :: int

partial_function (option) bars_loop ::
  "bar_layout \<Rightarrow> byte list \<Rightarrow> byte \<Rightarrow> byte \<Rightarrow> byte \<Rightarrow> byte \<Rightarrow> byte \<Rightarrow> lcd_state
     \<Rightarrow> (fault + (response \<times> lcd_state)) option" where
  "bars_loop layout data numbBars width multiplier b tmpIdx s =
     (if b < numbBars
      then
        if uint tmpIdx > LCD_X_RES - 1 then Some (Inr (OUT_OF_BORDER, s))
        else if unat b \<ge> length data then Some (Inl ReadPastEnd)
        else
          let tmpIdx1 = (word_of_int ((uint width + EMPTY_SPACE_BARS layout) * uint b
                                       + BAR_X layout) :: byte)
          in (case LcdSingleBar tmpIdx1 (word_of_int (BAR_Y layout))
                     (word_of_int (uint (data ! unat b) * uint multiplier)) width PIXEL_ON s of
                None \<Rightarrow> None
              | Some (Inl e) \<Rightarrow> Some (Inl e)
              | Some (Inr (response, s1)) \<Rightarrow>
                  if response = OUT_OF_BORDER then Some (Inr (response, s1))
                  else bars_loop layout data numbBars width multiplier (b + 1) tmpIdx1 s1)
      else Some (Inr (OK, s)))"

definition LcdBars ::
  "bar_layout \<Rightarrow> byte list \<Rightarrow> byte \<Rightarrow> byte \<Rightarrow> byte \<Rightarrow> lcd_state
     \<Rightarrow> (fault + (response \<times> lcd_state)) option" where
  "LcdBars layout data numbBars width multiplier s =
     (case bars_loop layout data numbBars width multiplier 0 0 s of
        None \<Rightarrow> None
      | Some (Inl e) \<Rightarrow> Some (Inl e)
      | Some (Inr (response, s1)) \<Rightarrow>
          if response = OUT_OF_BORDER then Some (Inr (response, s1))
          else Some (Inr (OK, s1\<lparr>UpdateLcd := True\<rparr>)))"

section \<open>LcdRect\<close>

text \<open>
  The loop over the two horizontal edges, \<open>for (tmpIdx = x1; tmpIdx <= x2; tmpIdx++)\<close>,
  and the loop over the two vertical ones; the codes \<open>LcdPixel\<close> returns are dropped.
\<close>

partial_function (option) rect_loop_h ::
  "byte \<Rightarrow> byte \<Rightarrow> byte \<Rightarrow> byte \<Rightarrow> LcdPixelMode \<Rightarrow> lcd_state \<Rightarrow> (fault + lcd_state) option" where
  "rect_loop_h tmpIdx x2 y1 y2 mode s =
     (if tmpIdx \<le> x2
      then (case LcdPixel tmpIdx y1 mode s of
              Inl e \<Rightarrow> Some (Inl e)
            | Inr (r1, s1) \<Rightarrow>
                (case LcdPixel tmpIdx y2 mode s1 of
                   Inl e \<Rightarrow> Some (Inl e)
                 | Inr (r2, s2) \<Rightarrow> rect_loop_h (tmpIdx + 1) x2 y1 y2 mode s2))
      else Some (Inr s))"

partial_function (option) rect_loop_v ::
  "byte \<Rightarrow> byte \<Rightarrow> byte \<Rightarrow> byte \<Rightarrow> LcdPixelMode \<Rightarrow> lcd_state \<Rightarrow> (fault + lcd_state) option" where
  "rect_loop_v tmpIdx y2 x1 x2 mode s =
     (if tmpIdx \<le> y2
      then (case LcdPixel x1 tmpIdx mode s of
              Inl e \<Rightarrow> Some (Inl e)
            | Inr (r1, s1) \<Rightarrow>
                (case LcdPixel x2 tmpIdx mode s1 of
                   Inl e \<Rightarrow> Some (Inl e)
                 | Inr (r2, s2) \<Rightarrow> rect_loop_v (tmpIdx + 1) y2 x1 x2 mode s2))
      else Some (Inr s))"

definition LcdRect ::
  "byte \<Rightarrow> byte \<Rightarrow> byte \<Rightarrow> byte \<Rightarrow> LcdPixelMode \<Rightarrow> lcd_state
     \<Rightarrow> (fault + (response \<times> lcd_state)) option" where
  "LcdRect x1 y1 x2 y2 mode s =
     (if uint x1 \<ge> LCD_X_RES \<or> uint x2 \<ge> LCD_X_RES \<or> uint y1 \<ge> LCD_Y_RES \<or> uint y2 \<ge> LCD_Y_RES
      then Some (Inr (OUT_OF_BORDER, s))
      else if x2 > x1 \<and> y2 > y1
      then (case rect_loop_h x1 x2 y1 y2 mode s of
              None \<Rightarrow> None
            | Some (Inl e) \<Rightarrow> Some (Inl e)
            | Some (Inr s1) \<Rightarrow>
                (case rect_loop_v y1 y2 x1 x2 mode s1 of
                   None \<Rightarrow> None
                 | Some (Inl e) \<Rightarrow> Some (Inl e)
                 | Some (Inr s2) \<Rightarrow> Some (Inr (OK, s2\<lparr>UpdateLcd := True\<rparr>))))
      else Some (Inr (OK, s)))"

section \<open>LcdStr and LcdFStr\<close>

text \<open>
  \<open>LcdStr\<close> walks the array \<open>dataArray\<close> with the byte index \<open>tmpIdx\<close>, which is
  back at 0 after 255, until it reads a zero; a read at or after the end of the array is
  a fault.
\<close>

partial_function (option) str_loop ::
  "font_table \<Rightarrow> LcdFontSize \<Rightarrow> byte list \<Rightarrow> byte \<Rightarrow> lcd_state
     \<Rightarrow> (fault + (response \<times> lcd_state)) option" where
  "str_loop font fsize dataArray tmpIdx s =
     (if unat tmpIdx \<ge> length dataArray then Some (Inl ReadPastEnd)
      else if dataArray ! unat tmpIdx = 0 then Some (Inr (OK, s))
      else (case LcdChr font fsize (dataArray ! unat tmpIdx) s of
              Inl e \<Rightarrow> Some (Inl e)
            | Inr (response, s1) \<Rightarrow>
                if response = OUT_OF_BORDER then Some (Inr (OUT_OF_BORDER, s1))
                else str_loop font fsize dataArray (tmpIdx + 1) s1))"

definition LcdStr ::
  "font_table \<Rightarrow> LcdFontSize \<Rightarrow> byte list \<Rightarrow> lcd_state
     \<Rightarrow> (fault + (response \<times> lcd_state)) option" where
  "LcdStr font fsize dataArray s = str_loop font fsize dataArray 0 s"

text \<open>
  \<open>LcdFStr\<close> moves the pointer itself: the argument is what lies in flash from
  \<open>dataPtr\<close> to the end of the array, and the loop reads its first byte and goes on
  with the rest.
\<close>

fun LcdFStr ::
  "font_table \<Rightarrow> LcdFontSize \<Rightarrow> byte list \<Rightarrow> lcd_state \<Rightarrow> fault + (response \<times> lcd_state)" where
  "LcdFStr font fsize [] s = Inl ReadPastEnd"
| "LcdFStr font fsize (c # dataPtr) s =
     (if c = 0 then Inr (OK, s)
      else (case LcdChr font fsize c s of
              Inl e \<Rightarrow> Inl e
            | Inr (response, s1) \<Rightarrow>
                if response = OUT_OF_BORDER then Inr (OUT_OF_BORDER, s1)
                else LcdFStr font fsize dataPtr s1))"

section \<open>LcdImage and LcdContrast\<close>

text \<open>
  \<open>memcpy_P\<close> of \<open>LCD_CACHE_SIZE\<close> bytes from the image into the cache, the dirty range
  set to the whole cache. \<open>LcdContrast\<close> sends three commands and touches no variable
  of the driver.
\<close>

definition LcdImage :: "byte list \<Rightarrow> lcd_state \<Rightarrow> fault + lcd_state" where
  "LcdImage imageData s =
     (if length imageData < nat LCD_CACHE_SIZE then Inl ReadPastEnd
      else Inr (s\<lparr>LcdCache := take (nat LCD_CACHE_SIZE) imageData,
                  LoWaterMark := 0,
                  HiWaterMark := LCD_CACHE_SIZE - 1,
                  UpdateLcd := True,
                  Written := Written s @ [0 .. LCD_CACHE_SIZE - 1]\<rparr>))"

definition LcdContrast :: "byte \<Rightarrow> wire" where
  "LcdContrast contrast =
     LcdSend 0x21 LCD_CMD @ LcdSend (0x80 OR contrast) LCD_CMD @ LcdSend 0x20 LCD_CMD"

section \<open>LcdInit\<close>

text \<open>
  \<open>LcdInit\<close> without the port set-up and the delays: the six commands, then
  \<open>LcdClear\<close> and \<open>LcdUpdate\<close>.
\<close>

definition LcdInit :: "bool \<Rightarrow> lcd_state \<Rightarrow> fault + (wire \<times> lcd_state)" where
  "LcdInit china s =
     and_then (LcdUpdate china (LcdClear s)) (\<lambda>(w, s1).
       Inr (LcdSend 0x21 LCD_CMD @ LcdSend 0xC8 LCD_CMD @ LcdSend 0x06 LCD_CMD
            @ LcdSend 0x13 LCD_CMD @ LcdSend 0x20 LCD_CMD @ LcdSend 0x0C LCD_CMD @ w, s1))"

section \<open>Reference states\<close>

text \<open>The static variables as the C start-up code leaves them: all zero.\<close>

definition power_on :: lcd_state where
  "power_on =
     \<lparr>LcdCache = replicate (nat LCD_CACHE_SIZE) 0, LoWaterMark = 0, HiWaterMark = 0,
      LcdCacheIdx = 0, UpdateLcd = False, Written = []\<rparr>"

text \<open>The state \<open>LcdInit\<close> leaves behind when it starts from \<open>power_on\<close>.\<close>

definition ready_state :: lcd_state where
  "ready_state =
     \<lparr>LcdCache = replicate (nat LCD_CACHE_SIZE) 0, LoWaterMark = LCD_CACHE_SIZE - 1,
      HiWaterMark = 0, LcdCacheIdx = 0, UpdateLcd = False,
      Written = [0 .. LCD_CACHE_SIZE - 1]\<rparr>"

text \<open>
  A glyph table for the worked examples, not the table of the driver: five columns of a
  letter A at index 33, blank elsewhere.
\<close>

definition sample_font :: font_table where
  "sample_font c i = (if c = 33 then [0x7E, 0x11, 0x11, 0x11, 0x7E] ! i else 0)"

text \<open>
  Values of the three bar macros for the worked examples; the header that defines them
  is not among the sources.
\<close>

definition sample_layout :: bar_layout where
  "sample_layout = \<lparr>EMPTY_SPACE_BARS = 2, BAR_X = 30, BAR_Y = 47\<rparr>"

section \<open>Sequences of driver calls\<close>

text \<open>
  What an application does between two calls of \<open>LcdUpdate\<close>: a list of calls of the
  other functions of the driver, run one after the other. \<open>None\<close> is a call that never
  returns, \<open>Inl\<close> a fault; otherwise the return codes are collected (\<open>LcdClear\<close>,
  \<open>LcdImage\<close> and \<open>LcdContrast\<close> return nothing and are listed with \<open>OK\<close>). What
  \<open>LcdContrast\<close> sends is not kept.
\<close>

datatype call =
    CallPixel byte byte LcdPixelMode
  | CallLine byte byte byte byte LcdPixelMode
  | CallCircle byte byte byte LcdPixelMode
  | CallSingleBar byte byte byte byte LcdPixelMode
  | CallBars "byte list" byte byte byte
  | CallRect byte byte byte byte LcdPixelMode
  | CallGotoXYFont byte byte
  | CallChr LcdFontSize byte
  | CallStr LcdFontSize "byte list"
  | CallFStr LcdFontSize "byte list"
  | CallImage "byte list"
  | CallClear
  | CallContrast byte

fun do_call ::
  "font_table \<Rightarrow> bar_layout \<Rightarrow> call \<Rightarrow> lcd_state
     \<Rightarrow> (fault + (response \<times> lcd_state)) option" where
  "do_call font layout (CallPixel x y mode) s = Some (LcdPixel x y mode s)"
| "do_call font layout (CallLine x1 y1 x2 y2 mode) s = LcdLine x1 y1 x2 y2 mode s"
| "do_call font layout (CallCircle x y radius mode) s = LcdCircle x y radius mode s"
| "do_call font layout (CallSingleBar baseX baseY height width mode) s =
     LcdSingleBar baseX baseY height width mode s"
| "do_call font layout (CallBars data numbBars width multiplier) s =
     LcdBars layout data numbBars width multiplier s"
| "do_call font layout (CallRect x1 y1 x2 y2 mode) s = LcdRect x1 y1 x2 y2 mode s"
| "do_call font layout (CallGotoXYFont x y) s = Some (Inr (LcdGotoXYFont x y s))"
| "do_call font layout (CallChr fsize ch) s = Some (LcdChr font fsize ch s)"
| "do_call font layout (CallStr fsize dataArray) s = LcdStr font fsize dataArray s"
| "do_call font layout (CallFStr fsize dataPtr) s = Some (LcdFStr font fsize dataPtr s)"
| "do_call font layout (CallImage imageData) s =
     (case LcdImage imageData s of Inl e \<Rightarrow> Some (Inl e) | Inr s1 \<Rightarrow> Some (Inr (OK, s1)))"
| "do_call font layout CallClear s = Some (Inr (OK, LcdClear s))"
| "do_call font layout (CallContrast contrast) s = Some (Inr (OK, s))"

fun do_calls ::
  "font_table \<Rightarrow> bar_layout \<Rightarrow> call list \<Rightarrow> lcd_state
     \<Rightarrow> (fault + (response list \<times> lcd_state)) option" where
  "do_calls font layout [] s = Some (Inr ([], s))"
| "do_calls font layout (c # cs) s =
     (case do_call font layout c s of
        None \<Rightarrow> None
      | Some (Inl e) \<Rightarrow> Some (Inl e)
      | Some (Inr (r, s1)) \<Rightarrow>
          (case do_calls font layout cs s1 of
             None \<Rightarrow> None
           | Some (Inl e) \<Rightarrow> Some (Inl e)
           | Some (Inr (rs, s2)) \<Rightarrow> Some (Inr (r # rs, s2))))"

text \<open>
  Whether some \<open>LcdChr\<close> call of the sequence returned \<open>OUT_OF_BORDER\<close>, made by the
  application or by \<open>LcdStr\<close> or \<open>LcdFStr\<close>, which return \<open>OUT_OF_BORDER\<close> when
  \<open>LcdChr\<close> does and in no other case.
\<close>

fun text_call :: "call \<Rightarrow> bool" where
  "text_call (CallChr fsize ch) = True"
| "text_call (CallStr fsize dataArray) = True"
| "text_call (CallFStr fsize dataPtr) = True"
| "text_call c = False"

fun chr_rejected :: "call list \<Rightarrow> response list \<Rightarrow> bool" where
  "chr_rejected (c # cs) (r # rs) = (text_call c \<and> r = OUT_OF_BORDER \<or> chr_rejected cs rs)"
| "chr_rejected cs rs = False"

text \<open>
  Two relations between a state and a later one, used in the proofs about the dirty
  range. \<open>wrote s s' ws\<close>: the code stored to the indices \<open>ws\<close>, all inside the cache,
  and left both watermarks alone. \<open>grows s s'\<close>: the code stored to some indices inside
  the cache, and each watermark is unchanged or is one of these indices.
\<close>

definition wrote :: "lcd_state \<Rightarrow> lcd_state \<Rightarrow> int list \<Rightarrow> bool" where
  "wrote s s' ws \<longleftrightarrow>
     Written s' = Written s @ ws \<and> (\<forall>j \<in> set ws. 0 \<le> j \<and> j < 504)
     \<and> LoWaterMark s' = LoWaterMark s \<and> HiWaterMark s' = HiWaterMark s"

definition grows :: "lcd_state \<Rightarrow> lcd_state \<Rightarrow> bool" where
  "grows s s' \<longleftrightarrow>
     (\<exists>ws. Written s' = Written s @ ws
         \<and> (\<forall>i \<in> set ws. 0 \<le> i \<and> i < 504)
         \<and> (LoWaterMark s' = LoWaterMark s \<or> LoWaterMark s' \<in> set ws)
         \<and> (HiWaterMark s' = HiWaterMark s \<or> HiWaterMark s' \<in> set ws))"

section \<open>Proof rules for the loops\<close>

declare update_loop.simps [simp del] update_loop_china.simps [simp del]
declare chr_loop_1x.simps [simp del] chr_loop_2x.simps [simp del]

text \<open>The induction rule of \<open>circle_loop\<close> for runs that end, with the arguments curried.\<close>

lemmas circle_loop_partial_induct =
  circle_loop.raw_induct
    [where xa = "((((((x, y), mode), xc), yc), p), s)" for x y mode xc yc p s,
     unfolded prod.case, rotated 1, consumes 1, case_names step]

lemmas str_loop_partial_induct = str_loop.raw_induct[rotated 1, consumes 1, case_names step]
lemmas line_loop_x_partial_induct = line_loop_x.raw_induct[rotated 1, consumes 1, case_names step]
lemmas line_loop_y_partial_induct = line_loop_y.raw_induct[rotated 1, consumes 1, case_names step]
lemmas bar_row_partial_induct = bar_row.raw_induct[rotated 1, consumes 1, case_names step]
lemmas bar_rows_partial_induct = bar_rows.raw_induct[rotated 1, consumes 1, case_names step]
lemmas bars_loop_partial_induct = bars_loop.raw_induct[rotated 1, consumes 1, case_names step]
lemmas rect_loop_h_partial_induct = rect_loop_h.raw_induct[rotated 1, consumes 1, case_names step]
lemmas rect_loop_v_partial_induct = rect_loop_v.raw_induct[rotated 1, consumes 1, case_names step]

section \<open>LcdPixel: addressing and bit operations\<close>

lemma pixel_index_bounds:
  assumes "uint x < 84" "uint y < 48"
  shows "0 \<le> uint y div 8 * 84 + uint x" "uint y div 8 * 84 + uint x < 504"
proof -
  have a: "0 \<le> uint y div 8" by (simp add: pos_imp_zdiv_nonneg_iff)
  have b: "uint y div 8 \<le> 5" using assms(2) zdiv_mono1[of "uint y" 47 8] by simp
  have c: "0 \<le> uint x" by simp
  show "0 \<le> uint y div 8 * 84 + uint x" using a c by simp
  show "uint y div 8 * 84 + uint x < 504" using b assms(1) by simp
qed

lemma pixel_offset: "(y - y div 8 * 8 :: byte) = y mod 8"
  by (simp add: minus_div_mult_eq_mod)

lemma unat_mod8: "unat (y mod 8 :: byte) = unat y mod 8"
  by (simp add: unat_mod)

lemma LcdPixel_in:
  assumes "uint x < 84" "uint y < 48"
  shows "LcdPixel x y mode s = Inr (OK, 
     s\<lparr>LcdCache := (LcdCache s)[nat (uint y div 8 * 84 + uint x) := 
          (case mode of PIXEL_OFF \<Rightarrow> LcdCache s ! nat (uint y div 8 * 84 + uint x) AND NOT (push_bit (unat (y mod 8)) 1)
             | PIXEL_ON \<Rightarrow> LcdCache s ! nat (uint y div 8 * 84 + uint x) OR push_bit (unat (y mod 8)) 1
             | PIXEL_XOR \<Rightarrow> LcdCache s ! nat (uint y div 8 * 84 + uint x) XOR push_bit (unat (y mod 8)) 1)],
       Written := Written s @ [uint y div 8 * 84 + uint x],
       LoWaterMark := min (LoWaterMark s) (uint y div 8 * 84 + uint x),
       HiWaterMark := max (HiWaterMark s) (uint y div 8 * 84 + uint x)\<rparr>)"
  using assms pixel_index_bounds[OF assms]
  by (simp add: LcdPixel_def cache_read_def cache_write_def and_then_def Let_def pixel_offset min_def max_def)

lemma bit_set: "n < 8 \<Longrightarrow> bit (v OR 2 ^ n :: byte) n"
  by (simp add: bit_simps)

lemma bit_clear: "\<not> bit (v AND NOT (2 ^ n) :: byte) n"
  by (simp add: bit_simps)

lemma xor_twice: "(v XOR m) XOR m = (v :: byte)"
  by (simp add: xor.assoc)

text \<open>
  C3: for every \<open>(x, y)\<close> with \<open>x \<ge> 84\<close> or \<open>y \<ge> 48\<close> and every mode, \<open>LcdPixel\<close>
  returns \<open>OUT_OF_BORDER\<close> and the state it returns is the state it was given: the cache,
  both watermarks, the cursor and the changed flag (and the write history) are as before.
\<close>

theorem LcdPixel_out_of_border:
  "uint x \<ge> LCD_X_RES \<or> uint y \<ge> LCD_Y_RES \<Longrightarrow> LcdPixel x y mode s = Inr (OUT_OF_BORDER, s)"
  by (simp add: LcdPixel_def)

theorem LcdPixel_out_of_border_witness:
  "(uint (84 :: byte) \<ge> LCD_X_RES \<or> uint (0 :: byte) \<ge> LCD_Y_RES)
   \<and> LcdPixel 84 0 PIXEL_XOR power_on = Inr (OUT_OF_BORDER, power_on)"
  using LcdPixel_out_of_border [of 84 0 PIXEL_XOR power_on] by simp

text \<open>
  C2: for \<open>x < 84\<close> and \<open>y < 48\<close>, with \<open>k = (y / 8) * 84 + x\<close> and \<open>b = y mod 8\<close>:
  after \<open>LcdPixel(x, y, PIXEL_ON)\<close> bit \<open>b\<close> of cache byte \<open>k\<close> is set, after
  \<open>PIXEL_OFF\<close> it is clear, after two \<open>PIXEL_XOR\<close> calls the cache is the original one;
  every call returns \<open>OK\<close>, changes no byte other than \<open>k\<close>, and takes \<open>k\<close> into the
  dirty range (\<open>LoWaterMark = min LoWaterMark k\<close>, \<open>HiWaterMark = max HiWaterMark k\<close>).
\<close>

theorem LcdPixel_in_border:
  assumes "uint x < LCD_X_RES" and "uint y < LCD_Y_RES"
     and "length (LcdCache s) = nat LCD_CACHE_SIZE"
  defines "k \<equiv> (uint y div 8) * 84 + uint x"
  defines "b \<equiv> unat y mod 8"
  shows "(\<exists>s1. LcdPixel x y PIXEL_ON s = Inr (OK, s1)
            \<and> bit (LcdCache s1 ! nat k) b
            \<and> LcdCache s1 = (LcdCache s)[nat k := LcdCache s ! nat k OR push_bit b 1]
            \<and> (\<forall>j. j \<noteq> nat k \<longrightarrow> LcdCache s1 ! j = LcdCache s ! j)
            \<and> LoWaterMark s1 = min (LoWaterMark s) k
            \<and> HiWaterMark s1 = max (HiWaterMark s) k)
       \<and> (\<exists>s1. LcdPixel x y PIXEL_OFF s = Inr (OK, s1)
            \<and> \<not> bit (LcdCache s1 ! nat k) b
            \<and> LcdCache s1 = (LcdCache s)[nat k := LcdCache s ! nat k AND NOT (push_bit b 1)]
            \<and> (\<forall>j. j \<noteq> nat k \<longrightarrow> LcdCache s1 ! j = LcdCache s ! j)
            \<and> LoWaterMark s1 = min (LoWaterMark s) k
            \<and> HiWaterMark s1 = max (HiWaterMark s) k)
       \<and> (\<exists>s1 s2. LcdPixel x y PIXEL_XOR s = Inr (OK, s1)
            \<and> LcdPixel x y PIXEL_XOR s1 = Inr (OK, s2)
            \<and> LcdCache s2 = LcdCache s
            \<and> (\<forall>j. j \<noteq> nat k \<longrightarrow> LcdCache s1 ! j = LcdCache s ! j)
            \<and> LoWaterMark s1 = min (LoWaterMark s) k
            \<and> HiWaterMark s1 = max (HiWaterMark s) k
            \<and> LoWaterMark s2 = min (LoWaterMark s1) k
            \<and> HiWaterMark s2 = max (HiWaterMark s1) k)"
proof -
  have kb: "0 \<le> k" "k < 504" using pixel_index_bounds[OF assms(1,2)] by (simp_all add: k_def)
  have len: "nat k < length (LcdCache s)" using kb assms(3) by simp
  have b8: "b < 8" by (simp add: b_def)
  have on: "\<exists>s1. LcdPixel x y PIXEL_ON s = Inr (OK, s1)
            \<and> bit (LcdCache s1 ! nat k) b
            \<and> LcdCache s1 = (LcdCache s)[nat k := LcdCache s ! nat k OR push_bit b 1]
            \<and> (\<forall>j. j \<noteq> nat k \<longrightarrow> LcdCache s1 ! j = LcdCache s ! j)
            \<and> LoWaterMark s1 = min (LoWaterMark s) k
            \<and> HiWaterMark s1 = max (HiWaterMark s) k"
    using len b8 by (simp add: LcdPixel_in[OF assms(1,2)] unat_mod8 bit_set flip: k_def b_def)
  have off: "\<exists>s1. LcdPixel x y PIXEL_OFF s = Inr (OK, s1)
            \<and> \<not> bit (LcdCache s1 ! nat k) b
            \<and> LcdCache s1 = (LcdCache s)[nat k := LcdCache s ! nat k AND NOT (push_bit b 1)]
            \<and> (\<forall>j. j \<noteq> nat k \<longrightarrow> LcdCache s1 ! j = LcdCache s ! j)
            \<and> LoWaterMark s1 = min (LoWaterMark s) k
            \<and> HiWaterMark s1 = max (HiWaterMark s) k"
    using len b8 by (simp add: LcdPixel_in[OF assms(1,2)] unat_mod8 bit_clear flip: k_def b_def)
  have xor: "\<exists>s1 s2. LcdPixel x y PIXEL_XOR s = Inr (OK, s1)
            \<and> LcdPixel x y PIXEL_XOR s1 = Inr (OK, s2)
            \<and> LcdCache s2 = LcdCache s
            \<and> (\<forall>j. j \<noteq> nat k \<longrightarrow> LcdCache s1 ! j = LcdCache s ! j)
            \<and> LoWaterMark s1 = min (LoWaterMark s) k
            \<and> HiWaterMark s1 = max (HiWaterMark s) k
            \<and> LoWaterMark s2 = min (LoWaterMark s1) k
            \<and> HiWaterMark s2 = max (HiWaterMark s1) k"
    using len b8 by (simp add: LcdPixel_in[OF assms(1,2)] unat_mod8 xor_twice flip: k_def b_def)
  from on off xor show ?thesis by blast
qed

theorem LcdPixel_in_border_witness:
  "uint (10 :: byte) < LCD_X_RES \<and> uint (10 :: byte) < LCD_Y_RES
   \<and> length (LcdCache power_on) = nat LCD_CACHE_SIZE
   \<and> (\<exists>s1. LcdPixel 10 10 PIXEL_ON power_on = Inr (OK, s1)
            \<and> bit (LcdCache s1 ! 94) 2 \<and> LoWaterMark s1 = 0 \<and> HiWaterMark s1 = 94)
   \<and> (\<exists>s1. LcdPixel 10 10 PIXEL_OFF power_on = Inr (OK, s1) \<and> \<not> bit (LcdCache s1 ! 94) 2)
   \<and> (\<exists>s1 s2. LcdPixel 10 10 PIXEL_XOR power_on = Inr (OK, s1)
            \<and> LcdPixel 10 10 PIXEL_XOR s1 = Inr (OK, s2) \<and> LcdCache s2 = LcdCache power_on)"
proof -
  have h: "uint (10 :: byte) < LCD_X_RES" "uint (10 :: byte) < LCD_Y_RES"
    "length (LcdCache power_on) = nat LCD_CACHE_SIZE"
    by (simp_all add: power_on_def)
  have k: "nat (uint (10 :: byte) div 8 * 84 + uint (10 :: byte)) = 94" by simp
  have b: "unat (10 :: byte) mod 8 = 2" by simp
  have lo: "min (LoWaterMark power_on) (uint (10 :: byte) div 8 * 84 + uint (10 :: byte)) = 0"
    and hi: "max (HiWaterMark power_on) (uint (10 :: byte) div 8 * 84 + uint (10 :: byte)) = 94"
    by (simp_all add: power_on_def)
  show ?thesis
    using h LcdPixel_in_border [OF h] unfolding k b lo hi by blast
qed

section \<open>LcdUpdate: what is sent and what is left\<close>

lemma clamp_mark_range: "0 \<le> clamp_mark m" "clamp_mark m < 504"
  by (simp_all add: clamp_mark_def)

lemma data_bytes_simps:
  "data_bytes [] = []"
  "data_bytes ((LCD_DATA, d) # w) = d # data_bytes w"
  "data_bytes ((LCD_CMD, d) # w) = data_bytes w"
  "data_bytes (u @ w) = data_bytes u @ data_bytes w"
  by (simp_all add: data_bytes_def)

lemma update_loop_sends:
  "0 \<le> i \<Longrightarrow> HiWaterMark s < 504 \<Longrightarrow>
   update_loop i s = Inr (map (\<lambda>j. (LCD_DATA, LcdCache s ! nat j)) [i .. HiWaterMark s])"
proof (induction i s rule: update_loop.induct)
  case (1 i s)
  show ?case
  proof (cases "i \<le> HiWaterMark s")
    case True
    have rd: "cache_read i s = Inr (LcdCache s ! nat i)"
      using True 1(2,3) by (simp add: cache_read_def)
    have ih: "update_loop (i + 1) s =
        Inr (map (\<lambda>j. (LCD_DATA, LcdCache s ! nat j)) [i + 1 .. HiWaterMark s])"
      using 1(1)[OF True] 1(2,3) by simp
    have up: "[i .. HiWaterMark s] = i # [i + 1 .. HiWaterMark s]"
      using True by (simp add: upto_rec1)
    show ?thesis
      by (subst update_loop.simps) (simp add: True rd ih up and_then_def LcdSend_def)
  next
    case False
    then show ?thesis by (subst update_loop.simps) simp
  qed
qed

lemma update_loop_china_data:
  "0 \<le> i \<Longrightarrow> HiWaterMark s < 504 \<Longrightarrow>
   \<exists>w. update_loop_china i x y s = Inr w
       \<and> data_bytes w = map (\<lambda>j. LcdCache s ! nat j) [i .. HiWaterMark s]"
proof (induction i x y s rule: update_loop_china.induct)
  case (1 i x y s)
  show ?case
  proof (cases "i \<le> HiWaterMark s")
    case True
    have rd: "cache_read i s = Inr (LcdCache s ! nat i)"
      using True 1(3,4) by (simp add: cache_read_def)
    have up: "[i .. HiWaterMark s] = i # [i + 1 .. HiWaterMark s]"
      using True by (simp add: upto_rec1)
    show ?thesis
    proof (cases "uint (x + 1) \<ge> LCD_X_RES")
      case wrap: True
      obtain w where w: "update_loop_china (i + 1) 0 (y + 1) s = Inr w"
        "data_bytes w = map (\<lambda>j. LcdCache s ! nat j) [i + 1 .. HiWaterMark s]"
        using 1(1)[OF True refl wrap] 1(3,4) by auto
      show ?thesis
        by (subst update_loop_china.simps)
           (simp add: True rd up wrap w and_then_def LcdSend_def Let_def data_bytes_simps)
    next
      case nowrap: False
      obtain w where w: "update_loop_china (i + 1) (x + 1) y s = Inr w"
        "data_bytes w = map (\<lambda>j. LcdCache s ! nat j) [i + 1 .. HiWaterMark s]"
        using 1(2)[OF True refl nowrap] 1(3,4) by auto
      show ?thesis
        by (subst update_loop_china.simps)
           (simp add: True rd up nowrap w and_then_def LcdSend_def Let_def data_bytes_simps)
    qed
  next
    case False
    then show ?thesis by (subst update_loop_china.simps) (simp add: data_bytes_simps)
  qed
qed

lemma LcdUpdate_standard:
  "LcdUpdate False s =
     Inr ((LCD_CMD, word_of_int (0x80 OR (clamp_mark (LoWaterMark s) mod 84)))
          # (LCD_CMD, word_of_int (0x40 OR (clamp_mark (LoWaterMark s) div 84)))
          # map (\<lambda>j. (LCD_DATA, LcdCache s ! nat j))
              [clamp_mark (LoWaterMark s) .. clamp_mark (HiWaterMark s)],
          s\<lparr>LoWaterMark := 503, HiWaterMark := 0, UpdateLcd := False\<rparr>)"
proof -
  have "update_loop (clamp_mark (LoWaterMark s)) (clamp_marks s) =
      Inr (map (\<lambda>j. (LCD_DATA, LcdCache s ! nat j))
             [clamp_mark (LoWaterMark s) .. clamp_mark (HiWaterMark s)])"
    using update_loop_sends[of "clamp_mark (LoWaterMark s)" "clamp_marks s"]
    by (simp add: clamp_marks_def clamp_mark_range)
  then show ?thesis
    by (simp add: LcdUpdate_def Let_def and_then_def LcdSend_def clamp_marks_def)
qed

lemma LcdUpdate_any:
  "\<exists>w. LcdUpdate china s =
          Inr (w, s\<lparr>LoWaterMark := 503, HiWaterMark := 0, UpdateLcd := False\<rparr>)
       \<and> data_bytes w = map (\<lambda>j. LcdCache s ! nat j)
                            [clamp_mark (LoWaterMark s) .. clamp_mark (HiWaterMark s)]"
proof (cases china)
  case False
  then show ?thesis
    by (simp add: LcdUpdate_standard data_bytes_def comp_def)
next
  case True
  obtain w where w: "update_loop_china (clamp_mark (LoWaterMark s))
        (word_of_int (clamp_mark (LoWaterMark s) mod 84))
        (word_of_int (clamp_mark (LoWaterMark s) div 84 + 1)) (clamp_marks s) = Inr w"
     "data_bytes w = map (\<lambda>j. LcdCache s ! nat j)
                            [clamp_mark (LoWaterMark s) .. clamp_mark (HiWaterMark s)]"
    using update_loop_china_data[of "clamp_mark (LoWaterMark s)" "clamp_marks s"
        "word_of_int (clamp_mark (LoWaterMark s) mod 84)"
        "word_of_int (clamp_mark (LoWaterMark s) div 84 + 1)"]
    by (auto simp add: clamp_marks_def clamp_mark_range)
  show ?thesis using True w
    by (simp add: LcdUpdate_def Let_def and_then_def LcdSend_def clamp_marks_def data_bytes_simps)
qed

lemma clamp_mark_id: "0 \<le> m \<Longrightarrow> m \<le> 503 \<Longrightarrow> clamp_mark m = m"
  by (simp add: clamp_mark_def)

lemma LcdInit_power_on: "\<exists>w. LcdInit china power_on = Inr (w, ready_state)"
proof -
  obtain w where "LcdUpdate china (LcdClear power_on) =
      Inr (w, (LcdClear power_on)\<lparr>LoWaterMark := 503, HiWaterMark := 0, UpdateLcd := False\<rparr>)"
    using LcdUpdate_any[of china "LcdClear power_on"] by blast
  then show ?thesis
    by (simp add: LcdInit_def and_then_def LcdClear_def power_on_def ready_state_def)
qed

text \<open>
  C5: in either build, \<open>LcdUpdate\<close> returns with \<open>LoWaterMark = 503\<close>,
  \<open>HiWaterMark = 0\<close> and the changed flag cleared, and leaves the cache alone. The data
  bytes of the first call are the cache bytes between the clamped watermarks (at least
  one byte when that range is not empty); a second call right after it sends no data
  byte and changes nothing.
\<close>

theorem LcdUpdate_twice:
  "\<exists>w1 s1 w2. LcdUpdate china s = Inr (w1, s1)
     \<and> LoWaterMark s1 = LCD_CACHE_SIZE - 1 \<and> HiWaterMark s1 = 0 \<and> \<not> UpdateLcd s1
     \<and> LcdCache s1 = LcdCache s
     \<and> data_bytes w1 = map (\<lambda>j. LcdCache s ! nat j)
                           [clamp_mark (LoWaterMark s) .. clamp_mark (HiWaterMark s)]
     \<and> (clamp_mark (LoWaterMark s) \<le> clamp_mark (HiWaterMark s) \<longrightarrow> data_bytes w1 \<noteq> [])
     \<and> LcdUpdate china s1 = Inr (w2, s1)
     \<and> data_bytes w2 = []"
proof -
  let ?s1 = "s\<lparr>LoWaterMark := 503, HiWaterMark := 0, UpdateLcd := False\<rparr>"
  obtain w1 where w1: "LcdUpdate china s = Inr (w1, ?s1)"
    "data_bytes w1 = map (\<lambda>j. LcdCache s ! nat j)
                           [clamp_mark (LoWaterMark s) .. clamp_mark (HiWaterMark s)]"
    using LcdUpdate_any[of china s] by blast
  obtain w2 where w2: "LcdUpdate china ?s1 = Inr (w2, ?s1)" "data_bytes w2 = []"
    using LcdUpdate_any[of china ?s1] by (auto simp add: clamp_mark_def)
  have ne: "clamp_mark (LoWaterMark s) \<le> clamp_mark (HiWaterMark s) \<longrightarrow> data_bytes w1 \<noteq> []"
    by (simp add: w1(2))
  show ?thesis using w1 w2 ne by (intro exI[of _ w1] exI[of _ ?s1] exI[of _ w2]) simp
qed

theorem LcdUpdate_twice_witness:
  "clamp_mark (LoWaterMark (LcdClear power_on)) \<le> clamp_mark (HiWaterMark (LcdClear power_on))
   \<and> (\<exists>w1 s1 w2. LcdUpdate False (LcdClear power_on) = Inr (w1, s1)
         \<and> LoWaterMark s1 = 503 \<and> HiWaterMark s1 = 0 \<and> \<not> UpdateLcd s1
         \<and> length (data_bytes w1) = 504 \<and> data_bytes w1 \<noteq> []
         \<and> LcdUpdate False s1 = Inr (w2, s1) \<and> data_bytes w2 = [])"
proof -
  have lo: "clamp_mark (LoWaterMark (LcdClear power_on)) = 0"
    and hi: "clamp_mark (HiWaterMark (LcdClear power_on)) = 503"
    by (simp_all add: LcdClear_def clamp_mark_def)
  obtain w1 s1 w2 where r: "LcdUpdate False (LcdClear power_on) = Inr (w1, s1)"
    "LoWaterMark s1 = 503" "HiWaterMark s1 = 0" "\<not> UpdateLcd s1"
    "data_bytes w1 = map (\<lambda>j. LcdCache (LcdClear power_on) ! nat j) [0 .. 503]"
    "data_bytes w1 \<noteq> []"
    "LcdUpdate False s1 = Inr (w2, s1)" "data_bytes w2 = []"
    using LcdUpdate_twice[of False "LcdClear power_on"] unfolding lo hi by auto
  have "length (data_bytes w1) = 504" unfolding r(5) by simp
  then show ?thesis using r lo hi by auto
qed

section \<open>LcdChr: bounds, the glyph A, the top text row\<close>

lemma and_then_Inr: "and_then m f = Inr r \<Longrightarrow> \<exists>v. m = Inr v \<and> f v = Inr r"
  by (cases m) (simp_all add: and_then_def)

lemma cache_write_Inr:
  assumes "cache_write i v s = Inr s'"
  shows "Written s' = Written s @ [i]" "0 \<le> i" "i < 504"
    "LoWaterMark s' = LoWaterMark s" "HiWaterMark s' = HiWaterMark s"
    "LcdCacheIdx s' = LcdCacheIdx s"
  using assms by (auto simp add: cache_write_def split: if_splits)

lemma cache_write_ok:
  "0 \<le> i \<Longrightarrow> i < 504 \<Longrightarrow>
   cache_write i v s = Inr (s\<lparr>LcdCache := (LcdCache s)[nat i := v], Written := Written s @ [i]\<rparr>)"
  by (simp add: cache_write_def)

lemma chr_finish_in_bounds:
  assumes "0 \<le> LcdCacheIdx s" "LcdCacheIdx s < 504"
  shows "\<exists>r s'. chr_finish s = Inr (r, s')"
  using assms by (simp add: chr_finish_def Let_def cache_write_def and_then_def)

lemma chr_loop_1x_in_bounds:
  assumes "0 \<le> LcdCacheIdx s" "LcdCacheIdx s \<le> 498"
  shows "\<exists>s'. chr_loop_1x font ch 0 s = Inr s' \<and> LcdCacheIdx s' = LcdCacheIdx s + 5"
  using assms by (simp add: chr_loop_1x.simps and_then_def cache_write_def)

lemma chr_loop_2x_in_bounds:
  assumes "0 \<le> t" "t \<le> 410"
  shows "\<exists>s'. chr_loop_2x font ch 0 t s = Inr s' \<and> LcdCacheIdx s' = LcdCacheIdx s"
  using assms by (simp add: chr_loop_2x.simps and_then_def cache_write_def Let_def)

lemma LcdChr_1x_in_bounds:
  assumes "0 \<le> LcdCacheIdx s" "LcdCacheIdx s \<le> 498"
  shows "\<exists>r s'. LcdChr font FONT_1X ch s = Inr (r, s')"
proof -
  let ?s1 = "(if LcdCacheIdx s < LoWaterMark s
                then s\<lparr>LoWaterMark := LcdCacheIdx s\<rparr> else s)"
  let ?ch1 = "(if ch \<ge> 0x20 \<and> ch \<le> 0x7F then ch - 32
                 else if ch \<ge> 0xC0 then ch - 96 else 95)"
  have c: "0 \<le> LcdCacheIdx ?s1" "LcdCacheIdx ?s1 \<le> 498" using assms by simp_all
  obtain s2 where s2: "chr_loop_1x font ?ch1 0 ?s1 = Inr s2" "LcdCacheIdx s2 = LcdCacheIdx ?s1 + 5"
    using chr_loop_1x_in_bounds[OF c] by blast
  have "0 \<le> LcdCacheIdx s2" "LcdCacheIdx s2 < 504" using s2(2) c by simp_all
  then obtain r s' where "chr_finish s2 = Inr (r, s')" using chr_finish_in_bounds by blast
  then have "and_then (chr_loop_1x font ?ch1 0 ?s1) chr_finish = Inr (r, s')"
    using s2(1) by (simp add: and_then_def)
  then have "LcdChr font FONT_1X ch s = Inr (r, s')"
    by (simp only: LcdChr_def Let_def LcdFontSize.case)
  then show ?thesis by blast
qed

lemma LcdChr_2x_in_bounds:
  assumes "LcdCacheIdx s \<le> 494"
  shows "\<exists>r s'. LcdChr font FONT_2X ch s = Inr (r, s')"
proof -
  let ?s1 = "(if LcdCacheIdx s < LoWaterMark s
                then s\<lparr>LoWaterMark := LcdCacheIdx s\<rparr> else s)"
  let ?ch1 = "(if ch \<ge> 0x20 \<and> ch \<le> 0x7F then ch - 32
                 else if ch \<ge> 0xC0 then ch - 96 else 95)"
  let ?t = "LcdCacheIdx ?s1 - 84"
  let ?s2 = "(if ?t < LoWaterMark ?s1 then ?s1\<lparr>LoWaterMark := ?t\<rparr> else ?s1)"
  have unf: "LcdChr font FONT_2X ch s = (if ?t < 0 then Inr (OUT_OF_BORDER, ?s2)
           else and_then (chr_loop_2x font ?ch1 0 ?t ?s2) (\<lambda>s3.
                  chr_finish (s3\<lparr>LcdCacheIdx := (LcdCacheIdx s3 + 11) mod 504\<rparr>)))"
    by (simp only: LcdChr_def Let_def LcdFontSize.case)
  show ?thesis
  proof (cases "?t < 0")
    case True
    then show ?thesis unfolding unf if_P[OF True] by blast
  next
    case False
    have t: "0 \<le> ?t" "?t \<le> 410" using False assms by simp_all
    obtain s3 where s3: "chr_loop_2x font ?ch1 0 ?t ?s2 = Inr s3"
      using chr_loop_2x_in_bounds[OF t] by blast
    let ?s4 = "s3\<lparr>LcdCacheIdx := (LcdCacheIdx s3 + 11) mod 504\<rparr>"
    have "0 \<le> LcdCacheIdx ?s4" "LcdCacheIdx ?s4 < 504" by simp_all
    then obtain r s' where "chr_finish ?s4 = Inr (r, s')" using chr_finish_in_bounds by blast
    then have "and_then (chr_loop_2x font ?ch1 0 ?t ?s2) (\<lambda>s3.
                  chr_finish (s3\<lparr>LcdCacheIdx := (LcdCacheIdx s3 + 11) mod 504\<rparr>)) = Inr (r, s')"
      using s3 by (simp add: and_then_def)
    then show ?thesis unfolding unf if_not_P[OF False] by blast
  qed
qed

lemma LcdGotoXYFont_cursor:
  assumes "LcdGotoXYFont x y s = (OK, s0)"
  shows "0 \<le> LcdCacheIdx s0 \<and> LcdCacheIdx s0 \<le> 498
       \<and> ((x, y) \<noteq> (13, 5) \<longrightarrow> LcdCacheIdx s0 \<le> 492)"
proof -
  have xy: "x \<le> 13" "y \<le> 5" and s0: "s0 = s\<lparr>LcdCacheIdx := uint x * 6 + uint y * 84\<rparr>"
    using assms by (auto simp add: LcdGotoXYFont_def split: if_splits)
  have ux: "uint x \<le> 13" and uy: "uint y \<le> 5"
    using xy by (simp_all add: word_le_def)
  have ne: "uint x \<le> 12 \<or> uint y \<le> 4" if "(x, y) \<noteq> (13, 5)"
  proof (rule ccontr)
    assume "\<not> (uint x \<le> 12 \<or> uint y \<le> 4)"
    then have "uint x = 13" "uint y = 5" using ux uy by simp_all
    then have "x = 13" "y = 5" by (simp_all add: word_uint_eq_iff)
    then show False using that by simp
  qed
  have "0 \<le> uint x" "0 \<le> uint y" by simp_all
  then show ?thesis unfolding s0 using ux uy ne by auto
qed

text \<open>
  After a successful \<open>LcdGotoXYFont\<close> a \<open>FONT_1X\<close> character never leaves the
  cache, and a \<open>FONT_2X\<close> character does not either unless the cursor was put on the
  last cell, column 13 of row 5.
\<close>

lemma LcdChr_after_goto_in_bounds:
  assumes "LcdGotoXYFont x y s = (OK, s0)"
  shows "\<exists>r s1. LcdChr font FONT_1X ch s0 = Inr (r, s1)"
    and "(x, y) \<noteq> (13, 5) \<Longrightarrow> \<exists>r s1. LcdChr font FONT_2X ch s0 = Inr (r, s1)"
  using LcdGotoXYFont_cursor[OF assms] LcdChr_1x_in_bounds[of s0] LcdChr_2x_in_bounds[of s0]
  by auto

text \<open>
  C1: every cache index written by \<open>LcdChr\<close> from a cursor set by \<open>LcdGotoXYFont\<close>
  lies in 0..503. The code does not keep this: \<open>LcdGotoXYFont(13, 5)\<close> succeeds and puts
  the cursor at 498, and \<open>LcdChr(FONT_2X, ch)\<close> there, for every character, glyph table
  and state, reaches the store \<open>LcdCache[tmpIdx + 82]\<close> with \<open>tmpIdx = 422\<close> in its
  fourth round: index 504, one past the end of the array.
\<close>

theorem LcdChr_2x_last_cell_out_of_bounds:
  "LcdGotoXYFont 13 5 s = (OK, s\<lparr>LcdCacheIdx := 498\<rparr>)
   \<and> LcdChr font FONT_2X ch (s\<lparr>LcdCacheIdx := 498\<rparr>) = Inl (OutOfBounds 504)"
  by (simp add: LcdGotoXYFont_def LcdChr_def chr_loop_2x.simps
        cache_write_def and_then_def Let_def)

text \<open>
  C7: with the cursor put at index 0 by \<open>LcdGotoXYFont(0, 0)\<close>, \<open>LcdChr(FONT_1X, 'A')\<close>
  returns \<open>OK\<close>, stores to the six indices 0..5 and to no other (the five columns of glyph
  33, the table entry of \<open>'A'\<close>, each shifted left by one bit, then a zero byte), leaves
  every other byte as it was, and moves the cursor to 6.
\<close>

theorem LcdChr_1x_A_at_origin:
  "\<exists>s0 s1. LcdGotoXYFont 0 0 s = (OK, s0) \<and> LcdCacheIdx s0 = 0
     \<and> LcdChr font FONT_1X 0x41 s0 = Inr (OK, s1)
     \<and> LcdCache s1 = (LcdCache s)
          [0 := push_bit 1 (font 33 0), 1 := push_bit 1 (font 33 1),
           2 := push_bit 1 (font 33 2), 3 := push_bit 1 (font 33 3),
           4 := push_bit 1 (font 33 4), 5 := 0]
     \<and> (\<forall>j. 6 \<le> j \<longrightarrow> LcdCache s1 ! j = LcdCache s ! j)
     \<and> Written s1 = Written s @ [0, 1, 2, 3, 4, 5]
     \<and> LcdCacheIdx s1 = 6"
proof -
  have n: "Suc (Suc 0) = 2" "Suc (Suc (Suc 0)) = 3" "Suc (Suc (Suc (Suc 0))) = 4"
    by simp_all
  show ?thesis
    by (simp add: LcdGotoXYFont_def LcdChr_def chr_loop_1x.simps chr_finish_def
        cache_write_def and_then_def Let_def n)
qed

theorem LcdChr_1x_A_at_origin_witness:
  "\<exists>s0 s1. LcdGotoXYFont 0 0 ready_state = (OK, s0)
     \<and> LcdChr sample_font FONT_1X 0x41 s0 = Inr (OK, s1)
     \<and> LcdCache s1 ! 0 = 0xFC \<and> LcdCache s1 ! 1 = 0x22 \<and> LcdCache s1 ! 2 = 0x22
     \<and> LcdCache s1 ! 3 = 0x22 \<and> LcdCache s1 ! 4 = 0xFC \<and> LcdCache s1 ! 5 = 0x00
     \<and> (6 :: nat) \<le> 6 \<and> LcdCache s1 ! 6 = LcdCache ready_state ! 6
     \<and> LcdCacheIdx s1 = 6"
proof -
  obtain s0 s1 where r: "LcdGotoXYFont 0 0 ready_state = (OK, s0)"
     "LcdChr sample_font FONT_1X 0x41 s0 = Inr (OK, s1)"
     "LcdCache s1 = (LcdCache ready_state)
          [0 := push_bit 1 (sample_font 33 0), 1 := push_bit 1 (sample_font 33 1),
           2 := push_bit 1 (sample_font 33 2), 3 := push_bit 1 (sample_font 33 3),
           4 := push_bit 1 (sample_font 33 4), 5 := 0]"
     "\<forall>j. 6 \<le> j \<longrightarrow> LcdCache s1 ! j = LcdCache ready_state ! j"
     "LcdCacheIdx s1 = 6"
    using LcdChr_1x_A_at_origin[of ready_state sample_font] by blast
  have len: "length (LcdCache ready_state) = 504" by (simp add: ready_state_def)
  have v: "LcdCache s1 ! 0 = 0xFC" "LcdCache s1 ! 1 = 0x22" "LcdCache s1 ! 2 = 0x22"
     "LcdCache s1 ! 3 = 0x22" "LcdCache s1 ! 4 = 0xFC" "LcdCache s1 ! 5 = 0x00"
    unfolding r(3) using len by (simp_all add: sample_font_def)
  have six: "LcdCache s1 ! 6 = LcdCache ready_state ! 6" using r(4) by simp
  show ?thesis using r(1,2,5) v six by simp
qed

text \<open>
  C9: for every character and glyph table, \<open>LcdChr\<close> with \<open>FONT_2X\<close> and the cursor
  in the top text row (index 0..83) returns \<open>OUT_OF_BORDER\<close> without a store to the
  cache, yet with \<open>LoWaterMark\<close> lowered to \<open>min LoWaterMark (min cursor (cursor - 84))\<close>,
  a negative value, and nothing else changed. The clamping at the head of \<open>LcdUpdate\<close>
  turns this watermark into 0, so the next \<open>LcdUpdate\<close> sends the bytes from index 0 on.
\<close>

theorem LcdChr_2x_top_row:
  assumes "0 \<le> LcdCacheIdx s" and "LcdCacheIdx s < 84"
  shows "\<exists>s1. LcdChr font FONT_2X ch s = Inr (OUT_OF_BORDER, s1)
     \<and> s1 = s\<lparr>LoWaterMark :=
                 min (LoWaterMark s) (min (LcdCacheIdx s) (LcdCacheIdx s - 84))\<rparr>
     \<and> LcdCache s1 = LcdCache s \<and> Written s1 = Written s
     \<and> LoWaterMark s1 < 0
     \<and> LoWaterMark (clamp_marks s1) = 0
     \<and> (\<exists>w s2. LcdUpdate china s1 = Inr (w, s2)
           \<and> data_bytes w = map (\<lambda>j. LcdCache s ! nat j) [0 .. clamp_mark (HiWaterMark s)])"
proof -
  let ?lo = "min (LoWaterMark s) (min (LcdCacheIdx s) (LcdCacheIdx s - 84))"
  let ?s1 = "s\<lparr>LoWaterMark := ?lo\<rparr>"
  have neg: "?lo < 0" using assms by simp
  have run: "LcdChr font FONT_2X ch s = Inr (OUT_OF_BORDER, ?s1)"
    using assms by (simp add: LcdChr_def Let_def min_def)
  have cl: "clamp_mark ?lo = 0" using neg by (simp add: clamp_mark_def)
  obtain w where w: "LcdUpdate china ?s1 =
          Inr (w, ?s1\<lparr>LoWaterMark := 503, HiWaterMark := 0, UpdateLcd := False\<rparr>)"
       "data_bytes w = map (\<lambda>j. LcdCache ?s1 ! nat j)
                            [clamp_mark (LoWaterMark ?s1) .. clamp_mark (HiWaterMark ?s1)]"
    using LcdUpdate_any[of china ?s1] by blast
  have w': "data_bytes w = map (\<lambda>j. LcdCache s ! nat j) [0 .. clamp_mark (HiWaterMark s)]"
    using w(2) cl by simp
  show ?thesis
    using run neg cl w(1) w' by (intro exI[of _ ?s1]) (simp add: clamp_marks_def)
qed

theorem LcdChr_2x_top_row_witness:
  "0 \<le> LcdCacheIdx ready_state \<and> LcdCacheIdx ready_state < 84
   \<and> (\<exists>s1. LcdChr sample_font FONT_2X 0x41 ready_state = Inr (OUT_OF_BORDER, s1)
         \<and> LoWaterMark ready_state = 503 \<and> LoWaterMark s1 = - 84
         \<and> LcdCache s1 = LcdCache ready_state \<and> Written s1 = Written ready_state
         \<and> LoWaterMark (clamp_marks s1) = 0)"
proof -
  have h: "0 \<le> LcdCacheIdx ready_state" "LcdCacheIdx ready_state < 84"
    by (simp_all add: ready_state_def)
  have lo: "min (LoWaterMark ready_state)
               (min (LcdCacheIdx ready_state) (LcdCacheIdx ready_state - 84)) = - 84"
    by (simp add: ready_state_def)
  show ?thesis
    using h LcdChr_2x_top_row[OF h, of sample_font "0x41" False] unfolding lo
    by (auto simp add: ready_state_def)
qed

section \<open>LcdCircle with radius 0\<close>

lemma replicate_8: "replicate 8 k = [k, k, k, k, k, k, k, k]"
  by (simp add: eval_nat_numeral)

lemma plot8_radius_0:
  assumes "uint x < 84" "uint y < 48" "length (LcdCache s) = 504"
  shows "plot8 x y 0 0 mode s =
      Inr (s\<lparr>LcdCache := (LcdCache s)[nat (uint y div 8 * 84 + uint x) :=
               (case mode of
                  PIXEL_OFF \<Rightarrow> LcdCache s ! nat (uint y div 8 * 84 + uint x)
                                 AND NOT (push_bit (unat (y mod 8)) 1)
                | PIXEL_ON \<Rightarrow> LcdCache s ! nat (uint y div 8 * 84 + uint x)
                                 OR push_bit (unat (y mod 8)) 1
                | PIXEL_XOR \<Rightarrow> LcdCache s ! nat (uint y div 8 * 84 + uint x))],
             Written := Written s @ replicate 8 (uint y div 8 * 84 + uint x),
             LoWaterMark := min (LoWaterMark s) (uint y div 8 * 84 + uint x),
             HiWaterMark := max (HiWaterMark s) (uint y div 8 * 84 + uint x)\<rparr>)"
proof -
  let ?k = "uint y div 8 * 84 + uint x"
  have kb: "0 \<le> ?k" "?k < 504" using pixel_index_bounds[OF assms(1,2)] by simp_all
  have len: "nat ?k < length (LcdCache s)" using kb assms(3) by simp
  show ?thesis
    unfolding replicate_8 using len
    by (cases mode)
       (simp_all add: plot8_def and_then_def LcdPixel_in[OF assms(1,2)] xor_twice
          bit.conj_disj_distrib ac_simps)
qed

lemma circle_loop_radius_0:
  assumes "plot8 x y 0 0 mode s = Inr s1"
  shows "circle_loop x y mode 0 0 3 s = Some (Inr s1)"
  apply (subst circle_loop.simps)
  apply (simp add: assms)
  apply (subst circle_loop.simps)
  apply simp
  done

lemma LcdCircle_radius_0:
  assumes "uint x < 84" "uint y < 48" "length (LcdCache s) = 504"
  shows "LcdCircle x y 0 mode s =
      Some (Inr (OK, s\<lparr>LcdCache := (LcdCache s)[nat (uint y div 8 * 84 + uint x) :=
               (case mode of
                  PIXEL_OFF \<Rightarrow> LcdCache s ! nat (uint y div 8 * 84 + uint x)
                                 AND NOT (push_bit (unat (y mod 8)) 1)
                | PIXEL_ON \<Rightarrow> LcdCache s ! nat (uint y div 8 * 84 + uint x)
                                 OR push_bit (unat (y mod 8)) 1
                | PIXEL_XOR \<Rightarrow> LcdCache s ! nat (uint y div 8 * 84 + uint x))],
             Written := Written s @ replicate 8 (uint y div 8 * 84 + uint x),
             LoWaterMark := min (LoWaterMark s) (uint y div 8 * 84 + uint x),
             HiWaterMark := max (HiWaterMark s) (uint y div 8 * 84 + uint x),
             UpdateLcd := True\<rparr>))"
  using assms(1,2)
  by (simp add: LcdCircle_def circle_loop_radius_0[OF plot8_radius_0[OF assms]])

text \<open>
  C10: for every centre on the display, \<open>LcdCircle(x, y, 0, PIXEL_XOR)\<close> returns \<open>OK\<close>
  and leaves every cache byte as it was: the one round of the loop stores eight times
  to the byte of the centre, and eight toggles of a bit restore it.
\<close>

theorem LcdCircle_radius_0_xor:
  assumes "uint x < LCD_X_RES" and "uint y < LCD_Y_RES"
    and "length (LcdCache s) = nat LCD_CACHE_SIZE"
  shows "\<exists>s1. LcdCircle x y 0 PIXEL_XOR s = Some (Inr (OK, s1))
     \<and> LcdCache s1 = LcdCache s
     \<and> Written s1 = Written s @ replicate 8 ((uint y div 8) * 84 + uint x)"
  using assms by (simp add: LcdCircle_radius_0)

theorem LcdCircle_radius_0_xor_witness:
  "uint (10 :: byte) < LCD_X_RES \<and> uint (10 :: byte) < LCD_Y_RES
   \<and> length (LcdCache ready_state) = nat LCD_CACHE_SIZE
   \<and> (\<exists>s1. LcdCircle 10 10 0 PIXEL_XOR ready_state = Some (Inr (OK, s1))
         \<and> LcdCache s1 = LcdCache ready_state
         \<and> Written s1 = Written ready_state @ [94, 94, 94, 94, 94, 94, 94, 94])"
proof -
  have h: "uint (10 :: byte) < LCD_X_RES" "uint (10 :: byte) < LCD_Y_RES"
   "length (LcdCache ready_state) = nat LCD_CACHE_SIZE"
    by (simp_all add: ready_state_def)
  have k: "uint (10 :: byte) div 8 * 84 + uint (10 :: byte) = 94" by simp
  show ?thesis
    using h LcdCircle_radius_0_xor[OF h] unfolding k replicate_8 by blast
qed

lemma bit_4_byte: "bit (4 :: byte) n \<longleftrightarrow> n = 2"
  using bit_exp_iff[where ?'a = byte, of 2 n] by auto

lemma pixel_10_10:
  fixes x y :: byte
  assumes "uint x < 84" "uint y < 48"
  shows "(uint y div 8 * 84 + uint x = 94 \<and> unat y mod 8 = 2) \<longleftrightarrow> (x = 10 \<and> y = 10)"
proof
  assume a: "uint y div 8 * 84 + uint x = 94 \<and> unat y mod 8 = 2"
  have x0: "0 \<le> uint x" by simp
  have q0: "0 \<le> uint y div 8" by (simp add: pos_imp_zdiv_nonneg_iff)
  have q: "uint y div 8 = 1" using a assms(1) x0 q0 by (cases "uint y div 8 \<le> 0"; cases "uint y div 8 \<ge> 2") auto
  then have ux: "uint x = 10" using a by simp
  have "int (unat y mod 8) = 2" using a by simp
  then have r: "uint y mod 8 = 2" by (simp add: zmod_int)
  have "uint y = uint y div 8 * 8 + uint y mod 8" by simp
  then have uy: "uint y = 10" using q r by simp
  have "x = word_of_int (uint x)" "y = word_of_int (uint y)" by simp_all
  then show "x = 10 \<and> y = 10" unfolding ux uy by simp
next
  assume "x = 10 \<and> y = 10"
  then show "uint y div 8 * 84 + uint x = 94 \<and> unat y mod 8 = 2" by simp
qed

lemma length_LcdClear: "length (LcdCache (LcdClear s)) = 504"
  by (simp add: LcdClear_def)

text \<open>
  C8: on a cleared cache \<open>LcdCircle(10, 10, 0, PIXEL_ON)\<close> returns \<open>OK\<close> and sets the
  pixel (10, 10) and no other: the cache is all zero but for byte 94, which is 0x04, so
  the bit of a pixel \<open>(x, y)\<close> of the display is set exactly when \<open>x = 10\<close> and \<open>y = 10\<close>.
  The loop runs once: the stores after the clearing are eight stores to index 94.
\<close>

theorem LcdCircle_radius_0_on:
  "\<exists>s1. LcdCircle 10 10 0 PIXEL_ON (LcdClear s) = Some (Inr (OK, s1))
     \<and> LcdCache s1 = (replicate 504 0)[94 := 0x04]
     \<and> Written s1 = Written s @ [0 .. 503] @ replicate 8 94
     \<and> (\<forall>(x :: byte) (y :: byte). uint x < LCD_X_RES \<longrightarrow> uint y < LCD_Y_RES \<longrightarrow>
           (bit (LcdCache s1 ! nat ((uint y div 8) * 84 + uint x)) (unat y mod 8)
              \<longleftrightarrow> x = 10 \<and> y = 10))"
proof -
  let ?c = "(replicate 504 0 :: byte list)[94 := 0x04]"
  have px: "bit (?c ! nat ((uint y div 8) * 84 + uint x)) (unat y mod 8) \<longleftrightarrow> x = 10 \<and> y = 10"
    if xy: "uint x < 84" "uint y < 48" for x y :: byte
  proof -
    let ?k = "uint y div 8 * 84 + uint x"
    have kb: "0 \<le> ?k" "?k < 504" using pixel_index_bounds[OF xy] by simp_all
    have "?c ! nat ?k = (if ?k = 94 then 4 else 0)"
      using kb by (simp add: nth_list_update nat_eq_iff)
    then have "bit (?c ! nat ?k) (unat y mod 8) \<longleftrightarrow> (?k = 94 \<and> unat y mod 8 = 2)"
    proof (cases "?k = 94")
      case True
      then show ?thesis using \<open>?c ! nat ?k = (if ?k = 94 then 4 else 0)\<close>
        by (simp only: bit_4_byte if_True simp_thms)
    next
      case False
      then show ?thesis using \<open>?c ! nat ?k = (if ?k = 94 then 4 else 0)\<close>
        by simp
    qed
    then show ?thesis using pixel_10_10[OF xy] by simp
  qed
  have run: "\<exists>s1. LcdCircle 10 10 0 PIXEL_ON (LcdClear s) = Some (Inr (OK, s1))
     \<and> LcdCache s1 = ?c
     \<and> Written s1 = Written s @ [0 .. 503] @ replicate 8 94"
    by (simp add: LcdCircle_radius_0[OF _ _ length_LcdClear]) (simp add: LcdClear_def)
  then show ?thesis using px by auto
qed

theorem LcdCircle_radius_0_on_witness:
  "\<exists>s1. LcdCircle 10 10 0 PIXEL_ON (LcdClear power_on) = Some (Inr (OK, s1))
     \<and> uint (10 :: byte) < LCD_X_RES \<and> uint (10 :: byte) < LCD_Y_RES
     \<and> bit (LcdCache s1 ! 94) (2 :: nat)
     \<and> uint (11 :: byte) < LCD_X_RES \<and> \<not> bit (LcdCache s1 ! 95) (2 :: nat)
     \<and> \<not> bit (LcdCache s1 ! 94) (3 :: nat)"
proof -
  obtain s1 where r: "LcdCircle 10 10 0 PIXEL_ON (LcdClear power_on) = Some (Inr (OK, s1))"
    "\<forall>(x :: byte) (y :: byte). uint x < LCD_X_RES \<longrightarrow> uint y < LCD_Y_RES \<longrightarrow>
           (bit (LcdCache s1 ! nat ((uint y div 8) * 84 + uint x)) (unat y mod 8)
              \<longleftrightarrow> x = 10 \<and> y = 10)"
    using LcdCircle_radius_0_on[of power_on] by blast
  have a: "bit (LcdCache s1 ! 94) (2 :: nat)" using r(2)[rule_format, of 10 10] by simp
  have b: "\<not> bit (LcdCache s1 ! 95) (2 :: nat)" using r(2)[rule_format, of 11 10] by simp
  have c: "\<not> bit (LcdCache s1 ! 94) (3 :: nat)" using r(2)[rule_format, of 10 11] by simp
  show ?thesis using r(1) a b c by simp
qed

text \<open>
  C6: every drawing function that draws a pixel sets the changed flag. \<open>LcdPixel\<close> does
  not: after \<open>LcdClear\<close> and \<open>LcdUpdate\<close> from the power-on state the flag is clear,
  \<open>LcdPixel(0, 0, PIXEL_ON)\<close> returns \<open>OK\<close> and sets bit 0 of byte 0, and the flag is
  still clear; \<open>LcdCircle(0, 0, 0, PIXEL_ON)\<close> in the same state draws the same pixel
  and sets the flag.
\<close>

theorem LcdPixel_leaves_flag_clear:
  "\<exists>w s0 s1 s2. LcdUpdate False (LcdClear power_on) = Inr (w, s0) \<and> \<not> UpdateLcd s0
     \<and> LcdPixel 0 0 PIXEL_ON s0 = Inr (OK, s1)
     \<and> LcdCache s0 ! 0 = 0 \<and> LcdCache s1 ! 0 = 1
     \<and> \<not> UpdateLcd s1
     \<and> LcdCircle 0 0 0 PIXEL_ON s0 = Some (Inr (OK, s2)) \<and> UpdateLcd s2"
proof -
  let ?s0 = "(LcdClear power_on)\<lparr>LoWaterMark := 503, HiWaterMark := 0, UpdateLcd := False\<rparr>"
  have len: "length (LcdCache ?s0) = 504" by (simp add: LcdClear_def)
  have c0: "LcdCache ?s0 ! 0 = 0" by (simp add: LcdClear_def)
  have w: "\<exists>w. LcdUpdate False (LcdClear power_on) = Inr (w, ?s0)"
    by (simp add: LcdUpdate_standard)
  have px: "\<exists>s1. LcdPixel 0 0 PIXEL_ON ?s0 = Inr (OK, s1) \<and> LcdCache s1 ! 0 = 1 \<and> \<not> UpdateLcd s1"
    using len c0 by (simp add: LcdPixel_in)
  have ci: "\<exists>s2. LcdCircle 0 0 0 PIXEL_ON ?s0 = Some (Inr (OK, s2)) \<and> UpdateLcd s2"
    by (simp add: LcdCircle_radius_0[OF _ _ len])
  show ?thesis
    using w px ci c0 by auto
qed

section \<open>The dirty range after a sequence of calls\<close>

lemma grows_refl: "grows s s"
  by (simp add: grows_def)

lemma grows_trans:
  assumes "grows s1 s2" "grows s2 s3"
  shows "grows s1 s3"
proof -
  obtain u where u: "Written s2 = Written s1 @ u" "\<forall>i \<in> set u. 0 \<le> i \<and> i < 504"
    "LoWaterMark s2 = LoWaterMark s1 \<or> LoWaterMark s2 \<in> set u"
    "HiWaterMark s2 = HiWaterMark s1 \<or> HiWaterMark s2 \<in> set u"
    using assms(1) unfolding grows_def by blast
  obtain v where v: "Written s3 = Written s2 @ v" "\<forall>i \<in> set v. 0 \<le> i \<and> i < 504"
    "LoWaterMark s3 = LoWaterMark s2 \<or> LoWaterMark s3 \<in> set v"
    "HiWaterMark s3 = HiWaterMark s2 \<or> HiWaterMark s3 \<in> set v"
    using assms(2) unfolding grows_def by blast
  have "Written s3 = Written s1 @ (u @ v)" using u(1) v(1) by simp
  moreover have "\<forall>i \<in> set (u @ v). 0 \<le> i \<and> i < 504" using u(2) v(2) by auto
  moreover have "LoWaterMark s3 = LoWaterMark s1 \<or> LoWaterMark s3 \<in> set (u @ v)"
    using u(3) v(3) by auto
  moreover have "HiWaterMark s3 = HiWaterMark s1 \<or> HiWaterMark s3 \<in> set (u @ v)"
    using u(4) v(4) by auto
  ultimately show ?thesis unfolding grows_def by blast
qed

lemma grows_flag: "grows s s' \<Longrightarrow> grows s (s'\<lparr>UpdateLcd := b\<rparr>)"
  by (simp add: grows_def)

lemma grows_cursor: "grows s s' \<Longrightarrow> grows s (s'\<lparr>LcdCacheIdx := c\<rparr>)"
  by (simp add: grows_def)

lemma LcdPixel_grows: "\<exists>r s'. LcdPixel x y mode s = Inr (r, s') \<and> grows s s'"
proof (cases "uint x < 84 \<and> uint y < 48")
  case True
  then have xy: "uint x < 84" "uint y < 48" by simp_all
  have b: "0 \<le> uint y div 8 * 84 + uint x" "uint y div 8 * 84 + uint x < 504"
    using pixel_index_bounds[OF xy] by simp_all
  show ?thesis
    unfolding LcdPixel_in[OF xy] grows_def using b
    by (auto simp add: min_def max_def)
next
  case False
  then have "LcdPixel x y mode s = Inr (OUT_OF_BORDER, s)"
    by (auto simp add: LcdPixel_def)
  then show ?thesis by (simp add: grows_refl)
qed

lemma plot8_grows: "\<exists>s'. plot8 x y xc yc mode s = Inr s' \<and> grows s s'"
proof -
  obtain r1 s1 where 1: "LcdPixel (x + xc) (y + yc) mode s = Inr (r1, s1)" "grows s s1"
    using LcdPixel_grows by blast
  obtain r2 s2 where 2: "LcdPixel (x + xc) (y - yc) mode s1 = Inr (r2, s2)" "grows s1 s2"
    using LcdPixel_grows by blast
  obtain r3 s3 where 3: "LcdPixel (x - xc) (y + yc) mode s2 = Inr (r3, s3)" "grows s2 s3"
    using LcdPixel_grows by blast
  obtain r4 s4 where 4: "LcdPixel (x - xc) (y - yc) mode s3 = Inr (r4, s4)" "grows s3 s4"
    using LcdPixel_grows by blast
  obtain r5 s5 where 5: "LcdPixel (x + yc) (y + xc) mode s4 = Inr (r5, s5)" "grows s4 s5"
    using LcdPixel_grows by blast
  obtain r6 s6 where 6: "LcdPixel (x + yc) (y - xc) mode s5 = Inr (r6, s6)" "grows s5 s6"
    using LcdPixel_grows by blast
  obtain r7 s7 where 7: "LcdPixel (x - yc) (y + xc) mode s6 = Inr (r7, s7)" "grows s6 s7"
    using LcdPixel_grows by blast
  obtain r8 s8 where 8: "LcdPixel (x - yc) (y - xc) mode s7 = Inr (r8, s8)" "grows s7 s8"
    using LcdPixel_grows by blast
  have run: "plot8 x y xc yc mode s = Inr s8"
    by (simp add: plot8_def and_then_def 1 2 3 4 5 6 7 8)
  have "grows s s8"
    using 1(2) 2(2) 3(2) 4(2) 5(2) 6(2) 7(2) 8(2) by (blast intro: grows_trans)
  with run show ?thesis by blast
qed

lemma circle_loop_grows:
  "circle_loop x y mode xc yc p s = Some r \<Longrightarrow>
   (case r of Inl e \<Rightarrow> True | Inr s' \<Rightarrow> grows s s')"
proof (induction rule: circle_loop_partial_induct)
  case (step loop x y mode xc yc p s r)
  show ?case
  proof (cases "sint xc \<le> sint yc")
    case False
    then have "r = Inr s" using step(2) by simp
    then show ?thesis by (simp add: grows_refl)
  next
    case True
    obtain s1 where s1: "plot8 x y xc yc mode s = Inr s1" "grows s s1"
      using plot8_grows by blast
    have "(if sint p < 0
           then loop x y mode (xc + 1) yc (p + (push_bit 2 xc + 6)) s1
           else loop x y mode (xc + 1) (yc - 1) (p + (push_bit 2 (xc - yc) + 10)) s1) = Some r"
      using step(2) True s1(1) by simp
    then have "case r of Inl e \<Rightarrow> True | Inr s' \<Rightarrow> grows s1 s'"
      using step(1) by (auto split: if_splits)
    then show ?thesis using s1(2) by (auto split: sum.splits intro: grows_trans)
  qed
qed

lemma LcdCircle_grows:
  assumes "LcdCircle x y radius mode s = Some (Inr (r, s'))"
  shows "grows s s'"
proof (cases "uint x \<ge> 84 \<or> uint y \<ge> 48")
  case True
  then have "s' = s" using assms by (simp add: LcdCircle_def)
  then show ?thesis by (simp add: grows_refl)
next
  case False
  then obtain s1 where s1: "circle_loop x y mode 0 radius (3 - push_bit 1 radius) s = Some (Inr s1)"
      "s' = s1\<lparr>UpdateLcd := True\<rparr>"
    using assms by (auto simp add: LcdCircle_def split: option.splits sum.splits)
  have "grows s s1" using circle_loop_grows[OF s1(1)] by simp
  then show ?thesis unfolding s1(2) by (rule grows_flag)
qed

lemma chr_loop_1x_done:
  assumes "chr_loop_1x font ch i s = Inr s'" "\<not> i < 5"
  shows "s' = s"
  using assms chr_loop_1x.simps[of font ch i s] by simp

lemma chr_loop_1x_step:
  assumes "chr_loop_1x font ch i s = Inr s'" "i < 5"
  shows "\<exists>s1. cache_write (LcdCacheIdx s) (push_bit 1 (font (unat ch) i)) s = Inr s1
     \<and> chr_loop_1x font ch (i + 1) (s1\<lparr>LcdCacheIdx := LcdCacheIdx s1 + 1\<rparr>) = Inr s'"
proof -
  have "and_then (cache_write (LcdCacheIdx s) (push_bit 1 (font (unat ch) i)) s)
            (\<lambda>s1. chr_loop_1x font ch (i + 1) (s1\<lparr>LcdCacheIdx := LcdCacheIdx s1 + 1\<rparr>)) = Inr s'"
    using assms chr_loop_1x.simps[of font ch i s] by simp
  then show ?thesis by (rule and_then_Inr)
qed

lemma chr_loop_1x_writes:
  "chr_loop_1x font ch i s = Inr s' \<Longrightarrow>
   \<exists>ws. wrote s s' ws \<and> (i < 5 \<longrightarrow> LcdCacheIdx s \<in> set ws)"
proof (induction font ch i s arbitrary: s' rule: chr_loop_1x.induct)
  case (1 font ch i s)
  show ?case
  proof (cases "i < 5")
    case False
    then have "s' = s" using 1(2) chr_loop_1x_done by blast
    then have "wrote s s' []" by (simp add: wrote_def)
    then show ?thesis using False by blast
  next
    case True
    obtain s1 where s1: "cache_write (LcdCacheIdx s) (push_bit 1 (font (unat ch) i)) s = Inr s1"
      "chr_loop_1x font ch (i + 1) (s1\<lparr>LcdCacheIdx := LcdCacheIdx s1 + 1\<rparr>) = Inr s'"
      using chr_loop_1x_step[OF 1(2) True] by blast
    note w = cache_write_Inr[OF s1(1)]
    obtain ws where ws: "wrote (s1\<lparr>LcdCacheIdx := LcdCacheIdx s1 + 1\<rparr>) s' ws"
      using 1(1)[OF True s1(2)] by blast
    have "wrote s s' (LcdCacheIdx s # ws)"
      using ws w by (simp add: wrote_def)
    then show ?thesis by (intro exI[of _ "LcdCacheIdx s # ws"]) simp
  qed
qed

lemma chr_loop_2x_done:
  assumes "chr_loop_2x font ch i t s = Inr s'" "\<not> i < 5"
  shows "s' = s"
  using assms chr_loop_2x.simps[of font ch i t s] by simp

lemma chr_loop_2x_step:
  assumes "chr_loop_2x font ch i t s = Inr s'" "i < 5"
  shows "\<exists>v1 v2 s1 s2 s3 s4. cache_write t v1 s = Inr s1
     \<and> cache_write (t + 1) v1 s1 = Inr s2
     \<and> cache_write (t + 2 + 82) v2 s2 = Inr s3
     \<and> cache_write (t + 2 + 83) v2 s3 = Inr s4
     \<and> chr_loop_2x font ch (i + 1) (t + 2) s4 = Inr s'"
proof -
  let ?c = "push_bit 1 (font (unat ch) i) :: byte"
  have "and_then (cache_write t (stretch ?c) s) (\<lambda>s1.
           and_then (cache_write (t + 1) (stretch ?c) s1) (\<lambda>s2.
           and_then (cache_write (t + 2 + 82) (stretch (drop_bit 4 ?c)) s2) (\<lambda>s3.
           and_then (cache_write (t + 2 + 83) (stretch (drop_bit 4 ?c)) s3) (\<lambda>s4.
             chr_loop_2x font ch (i + 1) (t + 2) s4)))) = Inr s'"
    using assms chr_loop_2x.simps[of font ch i t s] by (simp add: Let_def)
  from and_then_Inr[OF this] obtain s1 where s1: "cache_write t (stretch ?c) s = Inr s1"
      "and_then (cache_write (t + 1) (stretch ?c) s1) (\<lambda>s2.
           and_then (cache_write (t + 2 + 82) (stretch (drop_bit 4 ?c)) s2) (\<lambda>s3.
           and_then (cache_write (t + 2 + 83) (stretch (drop_bit 4 ?c)) s3) (\<lambda>s4.
             chr_loop_2x font ch (i + 1) (t + 2) s4))) = Inr s'"
    by blast
  from and_then_Inr[OF s1(2)] obtain s2 where s2: "cache_write (t + 1) (stretch ?c) s1 = Inr s2"
      "and_then (cache_write (t + 2 + 82) (stretch (drop_bit 4 ?c)) s2) (\<lambda>s3.
           and_then (cache_write (t + 2 + 83) (stretch (drop_bit 4 ?c)) s3) (\<lambda>s4.
             chr_loop_2x font ch (i + 1) (t + 2) s4)) = Inr s'"
    by blast
  from and_then_Inr[OF s2(2)] obtain s3 where s3: "cache_write (t + 2 + 82) (stretch (drop_bit 4 ?c)) s2 = Inr s3"
      "and_then (cache_write (t + 2 + 83) (stretch (drop_bit 4 ?c)) s3) (\<lambda>s4.
             chr_loop_2x font ch (i + 1) (t + 2) s4) = Inr s'"
    by blast
  from and_then_Inr[OF s3(2)] obtain s4 where s4: "cache_write (t + 2 + 83) (stretch (drop_bit 4 ?c)) s3 = Inr s4"
      "chr_loop_2x font ch (i + 1) (t + 2) s4 = Inr s'"
    by blast
  show ?thesis using s1(1) s2(1) s3(1) s4 by blast
qed

lemma chr_loop_2x_writes:
  "chr_loop_2x font ch i t s = Inr s' \<Longrightarrow>
   \<exists>ws. wrote s s' ws \<and> (i < 5 \<longrightarrow> t \<in> set ws)"
proof (induction font ch i t s arbitrary: s' rule: chr_loop_2x.induct)
  case (1 font ch i t s)
  show ?case
  proof (cases "i < 5")
    case False
    then have "s' = s" using 1(2) chr_loop_2x_done by blast
    then have "wrote s s' []" by (simp add: wrote_def)
    then show ?thesis using False by blast
  next
    case True
    obtain v1 v2 s1 s2 s3 s4 where
      s1: "cache_write t v1 s = Inr s1" and
      s2: "cache_write (t + 1) v1 s1 = Inr s2" and
      s3: "cache_write (t + 2 + 82) v2 s2 = Inr s3" and
      s4: "cache_write (t + 2 + 83) v2 s3 = Inr s4" and
      rec: "chr_loop_2x font ch (i + 1) (t + 2) s4 = Inr s'"
      using chr_loop_2x_step[OF 1(2) True] by blast
    note w1 = cache_write_Inr[OF s1] and w2 = cache_write_Inr[OF s2]
      and w3 = cache_write_Inr[OF s3] and w4 = cache_write_Inr[OF s4]
    obtain ws where ws: "wrote s4 s' ws"
      using 1(1)[OF True refl refl refl rec] by blast
    have "wrote s s' ([t, t + 1, t + 2 + 82, t + 2 + 83] @ ws)"
      using ws w1 w2 w3 w4 by (simp add: wrote_def)
    then show ?thesis
      by (intro exI[of _ "[t, t + 1, t + 2 + 82, t + 2 + 83] @ ws"]) simp
  qed
qed

lemma chr_finish_writes:
  assumes "chr_finish s = Inr (r, s')"
  shows "r \<noteq> OUT_OF_BORDER" "Written s' = Written s @ [LcdCacheIdx s]"
    "0 \<le> LcdCacheIdx s" "LcdCacheIdx s < 504"
    "LoWaterMark s' = LoWaterMark s"
    "HiWaterMark s' = HiWaterMark s \<or> HiWaterMark s' = LcdCacheIdx s"
proof -
  define s1 where "s1 = (if LcdCacheIdx s > HiWaterMark s
                then s\<lparr>HiWaterMark := LcdCacheIdx s\<rparr> else s)"
  have p1: "Written s1 = Written s" "LcdCacheIdx s1 = LcdCacheIdx s"
    "LoWaterMark s1 = LoWaterMark s"
    "HiWaterMark s1 = HiWaterMark s \<or> HiWaterMark s1 = LcdCacheIdx s"
    by (simp_all add: s1_def)
  have "and_then (cache_write (LcdCacheIdx s1) 0x00 s1) (\<lambda>s2.
           if LcdCacheIdx s2 = LCD_CACHE_SIZE - 1
           then Inr (OK_WITH_WRAP, s2\<lparr>LcdCacheIdx := 0\<rparr>)
           else Inr (OK, s2\<lparr>LcdCacheIdx := LcdCacheIdx s2 + 1\<rparr>)) = Inr (r, s')"
    using assms by (simp add: chr_finish_def Let_def s1_def)
  from and_then_Inr[OF this] obtain s2 where s2': "cache_write (LcdCacheIdx s1) 0x00 s1 = Inr s2
     \<and> (if LcdCacheIdx s2 = LCD_CACHE_SIZE - 1
           then Inr (OK_WITH_WRAP, s2\<lparr>LcdCacheIdx := 0\<rparr>)
           else Inr (OK, s2\<lparr>LcdCacheIdx := LcdCacheIdx s2 + 1\<rparr>))
          = (Inr (r, s') :: fault + response \<times> lcd_state)" ..
  note s2 = conjunct1[OF s2'] conjunct2[OF s2']
  note w = cache_write_Inr[OF s2(1)]
  have fin: "r \<noteq> OUT_OF_BORDER" "Written s' = Written s2" "LoWaterMark s' = LoWaterMark s2"
    "HiWaterMark s' = HiWaterMark s2"
    using s2(2) by (auto split: if_splits)
  show "r \<noteq> OUT_OF_BORDER" by (rule fin(1))
  show "Written s' = Written s @ [LcdCacheIdx s]" using fin(2) w(1) p1(1,2) by simp
  show "0 \<le> LcdCacheIdx s" "LcdCacheIdx s < 504" using w(2,3) p1(2) by simp_all
  show "LoWaterMark s' = LoWaterMark s" using fin(3) w(4) p1(3) by simp
  show "HiWaterMark s' = HiWaterMark s \<or> HiWaterMark s' = LcdCacheIdx s"
    using fin(4) w(5) p1(4) by simp
qed

lemma LcdChr_grows:
  assumes "LcdChr font fsize ch s = Inr (r, s')" and "r \<noteq> OUT_OF_BORDER"
  shows "grows s s'"
proof -
  let ?s1 = "(if LcdCacheIdx s < LoWaterMark s
                then s\<lparr>LoWaterMark := LcdCacheIdx s\<rparr> else s)"
  let ?ch1 = "(if ch \<ge> 0x20 \<and> ch \<le> 0x7F then ch - 32
                 else if ch \<ge> 0xC0 then ch - 96 else 95)"
  have s1: "Written ?s1 = Written s" "HiWaterMark ?s1 = HiWaterMark s"
    "LcdCacheIdx ?s1 = LcdCacheIdx s"
    "LoWaterMark ?s1 = LoWaterMark s \<or> LoWaterMark ?s1 = LcdCacheIdx s"
    by simp_all
  show ?thesis
  proof (cases fsize)
    case FONT_1X
    have "and_then (chr_loop_1x font ?ch1 0 ?s1) chr_finish = Inr (r, s')"
      using assms(1) FONT_1X by (simp only: LcdChr_def Let_def LcdFontSize.case)
    from and_then_Inr[OF this]
    obtain s2 where s2: "chr_loop_1x font ?ch1 0 ?s1 = Inr s2" "chr_finish s2 = Inr (r, s')"
      by blast
    obtain ws where ws: "wrote ?s1 s2 ws" "LcdCacheIdx ?s1 \<in> set ws"
      using chr_loop_1x_writes[OF s2(1)] by auto
    note f = chr_finish_writes[OF s2(2)]
    let ?ws = "ws @ [LcdCacheIdx s2]"
    have a: "Written s' = Written s @ ?ws"
      using f(2) ws(1) s1(1) unfolding wrote_def by simp
    have b: "\<forall>j \<in> set ?ws. 0 \<le> j \<and> j < 504"
      using ws(1) f(3,4) unfolding wrote_def by simp
    have "LoWaterMark s' = LoWaterMark ?s1" using f(5) ws(1) unfolding wrote_def by simp
    then have c: "LoWaterMark s' = LoWaterMark s \<or> LoWaterMark s' \<in> set ?ws"
      using ws(2) s1(3,4) by auto
    have "HiWaterMark s' = HiWaterMark ?s1 \<or> HiWaterMark s' = LcdCacheIdx s2"
      using f(6) ws(1) unfolding wrote_def by simp
    then have d: "HiWaterMark s' = HiWaterMark s \<or> HiWaterMark s' \<in> set ?ws"
      using s1(2) by auto
    show ?thesis unfolding grows_def using a b c d by blast
  next
    case FONT_2X
    let ?t = "LcdCacheIdx ?s1 - 84"
    let ?s2 = "(if ?t < LoWaterMark ?s1 then ?s1\<lparr>LoWaterMark := ?t\<rparr> else ?s1)"
    have run: "(if ?t < 0 then Inr (OUT_OF_BORDER, ?s2)
           else and_then (chr_loop_2x font ?ch1 0 ?t ?s2) (\<lambda>s3.
                  chr_finish (s3\<lparr>LcdCacheIdx := (LcdCacheIdx s3 + 11) mod 504\<rparr>))) = Inr (r, s')"
      using assms(1) FONT_2X by (simp only: LcdChr_def Let_def LcdFontSize.case)
    have t0: "\<not> ?t < 0"
    proof
      assume neg: "?t < 0"
      have "Inr (OUT_OF_BORDER, ?s2) = (Inr (r, s') :: fault + response \<times> lcd_state)"
        using run unfolding if_P[OF neg] .
      then show False using assms(2) by simp
    qed
    have p2: "Written ?s2 = Written s" "HiWaterMark ?s2 = HiWaterMark s"
      "LoWaterMark ?s2 = LoWaterMark s \<or> LoWaterMark ?s2 = ?t"
      by auto
    have "and_then (chr_loop_2x font ?ch1 0 ?t ?s2) (\<lambda>s3.
                  chr_finish (s3\<lparr>LcdCacheIdx := (LcdCacheIdx s3 + 11) mod 504\<rparr>)) = Inr (r, s')"
      using run unfolding if_not_P[OF t0] .
    from and_then_Inr[OF this] obtain s3 where s3: "chr_loop_2x font ?ch1 0 ?t ?s2 = Inr s3"
      "chr_finish (s3\<lparr>LcdCacheIdx := (LcdCacheIdx s3 + 11) mod 504\<rparr>) = Inr (r, s')"
      by blast
    obtain ws where ws: "wrote ?s2 s3 ws" "?t \<in> set ws"
      using chr_loop_2x_writes[OF s3(1)] by auto
    note f = chr_finish_writes[OF s3(2)]
    let ?c = "(LcdCacheIdx s3 + 11) mod 504"
    let ?ws = "ws @ [?c]"
    have a: "Written s' = Written s @ ?ws"
      using f(2) ws(1) p2(1) unfolding wrote_def by simp
    have b: "\<forall>j \<in> set ?ws. 0 \<le> j \<and> j < 504"
      using ws(1) f(3,4) unfolding wrote_def by simp
    have "LoWaterMark s' = LoWaterMark ?s2" using f(5) ws(1) unfolding wrote_def by simp
    then have c: "LoWaterMark s' = LoWaterMark s \<or> LoWaterMark s' \<in> set ?ws"
      using ws(2) p2(3) by auto
    have "HiWaterMark s' = HiWaterMark ?s2 \<or> HiWaterMark s' = ?c"
      using f(6) ws(1) unfolding wrote_def by simp
    then have d: "HiWaterMark s' = HiWaterMark s \<or> HiWaterMark s' \<in> set ?ws"
      using p2(2) by auto
    show ?thesis unfolding grows_def using a b c d by blast
  qed
qed

lemma LcdGotoXYFont_grows: "LcdGotoXYFont x y s = (r, s') \<Longrightarrow> grows s s'"
  by (auto simp add: LcdGotoXYFont_def grows_def split: if_splits)

lemma LcdClear_grows: "grows s (LcdClear s)"
  unfolding grows_def
  by (rule exI[of _ "[0 .. 503]"]) (simp add: LcdClear_def)

lemma grows_then:
  assumes "grows s s1"
    and "case res of Inl e \<Rightarrow> True | Inr (r, s') \<Rightarrow> grows s1 s'"
  shows "case res of Inl e \<Rightarrow> True | Inr (r, s') \<Rightarrow> grows s s'"
  using assms by (auto split: sum.splits intro: grows_trans)

lemma line_loop_x_grows:
  "line_loop_x dx dy stepx stepy x2 mode fraction x1 y1 s = Some res \<Longrightarrow>
   (case res of Inl e \<Rightarrow> True | Inr (r, s') \<Rightarrow> grows s s')"
proof (induction rule: line_loop_x_partial_induct)
  case (step loop dx dy stepx stepy x2 mode fraction x1 y1 s res)
  show ?case
  proof (cases "x1 \<noteq> x2")
    case False
    then have "res = Inr (OK, s)" using step(2) by simp
    then show ?thesis by (simp add: grows_refl)
  next
    case True
    let ?y1a = "(if fraction \<ge> 0 then word_of_int (uint y1 + stepy) else y1) :: byte"
    let ?x1a = "word_of_int (uint x1 + stepx) :: byte"
    let ?fraction2 = "(if fraction \<ge> 0 then fraction - dx else fraction) + dy"
    obtain r1 s1 where px: "LcdPixel ?x1a ?y1a mode s = Inr (r1, s1)" "grows s s1"
      using LcdPixel_grows by blast
    have run: "(if r1 \<noteq> OK then Some (Inr (r1, s1))
           else loop dx dy stepx stepy x2 mode ?fraction2 ?x1a ?y1a s1) = Some res"
      using step(2) unfolding if_P[OF True] Let_def px(1) sum.case prod.case .
    show ?thesis
    proof (cases "r1 \<noteq> OK")
      case True
      then have "res = Inr (r1, s1)" using run by simp
      then show ?thesis using px(2) by simp
    next
      case False
      then have "loop dx dy stepx stepy x2 mode ?fraction2 ?x1a ?y1a s1 = Some res"
        using run by simp
      then show ?thesis using step(1) px(2) grows_then by blast
    qed
  qed
qed

lemma line_loop_y_grows:
  "line_loop_y dx dy stepx stepy y2 mode fraction x1 y1 s = Some res \<Longrightarrow>
   (case res of Inl e \<Rightarrow> True | Inr (r, s') \<Rightarrow> grows s s')"
proof (induction rule: line_loop_y_partial_induct)
  case (step loop dx dy stepx stepy y2 mode fraction x1 y1 s res)
  show ?case
  proof (cases "y1 \<noteq> y2")
    case False
    then have "res = Inr (OK, s)" using step(2) by simp
    then show ?thesis by (simp add: grows_refl)
  next
    case True
    let ?x1a = "(if fraction \<ge> 0 then word_of_int (uint x1 + stepx) else x1) :: byte"
    let ?y1a = "word_of_int (uint y1 + stepy) :: byte"
    let ?fraction2 = "(if fraction \<ge> 0 then fraction - dy else fraction) + dx"
    obtain r1 s1 where px: "LcdPixel ?x1a ?y1a mode s = Inr (r1, s1)" "grows s s1"
      using LcdPixel_grows by blast
    have run: "(if r1 \<noteq> OK then Some (Inr (r1, s1))
           else loop dx dy stepx stepy y2 mode ?fraction2 ?x1a ?y1a s1) = Some res"
      using step(2) unfolding if_P[OF True] Let_def px(1) sum.case prod.case .
    show ?thesis
    proof (cases "r1 \<noteq> OK")
      case True
      then have "res = Inr (r1, s1)" using run by simp
      then show ?thesis using px(2) by simp
    next
      case False
      then have "loop dx dy stepx stepy y2 mode ?fraction2 ?x1a ?y1a s1 = Some res"
        using run by simp
      then show ?thesis using step(1) px(2) grows_then by blast
    qed
  qed
qed

lemma LcdLine_grows:
  assumes "LcdLine x1 y1 x2 y2 mode s = Some (Inr (r, s'))"
  shows "grows s s'"
proof -
  obtain r1 s1 where px: "LcdPixel x1 y1 mode s = Inr (r1, s1)" "grows s s1"
    using LcdPixel_grows by blast
  show ?thesis
  proof (cases "r1 \<noteq> OK")
    case True
    then have "s' = s1" using assms px(1) by (simp add: LcdLine_def Let_def)
    then show ?thesis using px(2) by simp
  next
    case False
    define dx where "dx = (if uint x2 - uint x1 < 0 then - (uint x2 - uint x1) else uint x2 - uint x1) * 2"
    define dy where "dy = (if uint y2 - uint y1 < 0 then - (uint y2 - uint y1) else uint y2 - uint y1) * 2"
    define stepx :: int where "stepx = (if uint x2 - uint x1 < 0 then - 1 else 1)"
    define stepy :: int where "stepy = (if uint y2 - uint y1 < 0 then - 1 else 1)"
    define loop where "loop = (if dx > dy
                      then line_loop_x dx dy stepx stepy x2 mode (dy - dx div 2) x1 y1 s1
                      else line_loop_y dx dy stepx stepy y2 mode (dx - dy div 2) x1 y1 s1)"
    have run: "(case loop of
                  None \<Rightarrow> None
                | Some (Inl e) \<Rightarrow> Some (Inl e)
                | Some (Inr (response, s2)) \<Rightarrow>
                    if response \<noteq> OK then Some (Inr (response, s2))
                    else Some (Inr (OK, s2\<lparr>UpdateLcd := True\<rparr>))) = Some (Inr (r, s'))"
      using assms False unfolding LcdLine_def Let_def px(1) sum.case prod.case
        dx_def dy_def stepx_def stepy_def loop_def by simp
    then obtain r2 s2 where l: "loop = Some (Inr (r2, s2))"
      and s': "s' = s2 \<or> s' = s2\<lparr>UpdateLcd := True\<rparr>"
      by (auto split: option.splits sum.splits prod.splits if_splits)
    have "grows s1 s2"
    proof (cases "dx > dy")
      case True
      then show ?thesis using l line_loop_x_grows[of dx dy stepx stepy x2 mode _ x1 y1 s1 "Inr (r2, s2)"]
        unfolding loop_def by simp
    next
      case False
      then show ?thesis using l line_loop_y_grows[of dx dy stepx stepy y2 mode _ x1 y1 s1 "Inr (r2, s2)"]
        unfolding loop_def by simp
    qed
    then have "grows s s2" using px(2) grows_trans by blast
    then show ?thesis using s' grows_flag by auto
  qed
qed

lemma bar_row_grows:
  "bar_row tmpIdxX tmpIdxY baseX width mode s = Some res \<Longrightarrow>
   (case res of Inl e \<Rightarrow> True | Inr (r, s') \<Rightarrow> grows s s')"
proof (induction rule: bar_row_partial_induct)
  case (step loop tmpIdxX tmpIdxY baseX width mode s res)
  show ?case
  proof (cases "uint tmpIdxX < uint baseX + uint width")
    case False
    then have "res = Inr (OK, s)" using step(2) by simp
    then show ?thesis by (simp add: grows_refl)
  next
    case True
    obtain r1 s1 where px: "LcdPixel tmpIdxX tmpIdxY mode s = Inr (r1, s1)" "grows s s1"
      using LcdPixel_grows by blast
    have run: "(if r1 \<noteq> OK then Some (Inr (r1, s1))
           else loop (tmpIdxX + 1) tmpIdxY baseX width mode s1) = Some res"
      using step(2) unfolding if_P[OF True] px(1) sum.case prod.case .
    show ?thesis
    proof (cases "r1 \<noteq> OK")
      case True
      then have "res = Inr (r1, s1)" using run by simp
      then show ?thesis using px(2) by simp
    next
      case False
      then have "loop (tmpIdxX + 1) tmpIdxY baseX width mode s1 = Some res"
        using run by simp
      then show ?thesis using step(1) px(2) grows_then by blast
    qed
  qed
qed

lemma bar_rows_grows:
  "bar_rows tmpIdxY baseX baseY width mode s = Some res \<Longrightarrow>
   (case res of Inl e \<Rightarrow> True | Inr (r, s') \<Rightarrow> grows s s')"
proof (induction rule: bar_rows_partial_induct)
  case (step loop tmpIdxY baseX baseY width mode s res)
  show ?case
  proof (cases "tmpIdxY \<le> baseY")
    case False
    then have "res = Inr (OK, s)" using step(2) by simp
    then show ?thesis by (simp add: grows_refl)
  next
    case True
    have run: "(case bar_row baseX tmpIdxY baseX width mode s of
              None \<Rightarrow> None
            | Some (Inl e) \<Rightarrow> Some (Inl e)
            | Some (Inr (response, s1)) \<Rightarrow>
                if response \<noteq> OK then Some (Inr (response, s1))
                else loop (tmpIdxY + 1) baseX baseY width mode s1) = Some res"
      using step(2) unfolding if_P[OF True] .
    show ?thesis
    proof (cases "bar_row baseX tmpIdxY baseX width mode s")
      case None
      then show ?thesis using run by simp
    next
      case (Some row)
      show ?thesis
      proof (cases row)
        case (Inl e)
        then have "res = Inl e" using run Some by simp
        then show ?thesis by simp
      next
        case (Inr p)
        obtain r1 s1 where p: "p = (r1, s1)" by (cases p)
        have g: "grows s s1" using bar_row_grows[OF Some] Inr p by simp
        have run': "(if r1 \<noteq> OK then Some (Inr (r1, s1))
                else loop (tmpIdxY + 1) baseX baseY width mode s1) = Some res"
          using run Some Inr p by simp
        show ?thesis
        proof (cases "r1 \<noteq> OK")
          case True
          then have "res = Inr (r1, s1)" using run' by simp
          then show ?thesis using g by simp
        next
          case False
          then have "loop (tmpIdxY + 1) baseX baseY width mode s1 = Some res"
            using run' by simp
          then show ?thesis using step(1) g grows_then by blast
        qed
      qed
    qed
  qed
qed

lemma LcdSingleBar_grows:
  assumes "LcdSingleBar baseX baseY height width mode s = Some (Inr (r, s'))"
  shows "grows s s'"
proof (cases "uint baseX \<ge> LCD_X_RES \<or> uint baseY \<ge> LCD_Y_RES")
  case True
  then have "s' = s" using assms by (simp add: LcdSingleBar_def)
  then show ?thesis by (simp add: grows_refl)
next
  case False
  define tmp where "tmp = (if height > baseY then 0 else baseY - height + 1)"
  have run: "(case bar_rows tmp baseX baseY width mode s of
              None \<Rightarrow> None
            | Some (Inl e) \<Rightarrow> Some (Inl e)
            | Some (Inr (response, s1)) \<Rightarrow>
                if response \<noteq> OK then Some (Inr (response, s1))
                else Some (Inr (OK, s1\<lparr>UpdateLcd := True\<rparr>))) = Some (Inr (r, s'))"
    using assms False unfolding LcdSingleBar_def Let_def tmp_def by simp
  then obtain r2 s2 where l: "bar_rows tmp baseX baseY width mode s = Some (Inr (r2, s2))"
    and s': "s' = s2 \<or> s' = s2\<lparr>UpdateLcd := True\<rparr>"
    by (auto split: option.splits sum.splits prod.splits if_splits)
  have "grows s s2" using bar_rows_grows[OF l] by simp
  then show ?thesis using s' grows_flag by auto
qed

lemma bars_loop_grows:
  "bars_loop layout data numbBars width multiplier b tmpIdx s = Some res \<Longrightarrow>
   (case res of Inl e \<Rightarrow> True | Inr (r, s') \<Rightarrow> grows s s')"
proof (induction rule: bars_loop_partial_induct)
  case (step loop layout data numbBars width multiplier b tmpIdx s res)
  let ?tmpIdx1 = "word_of_int ((uint width + EMPTY_SPACE_BARS layout) * uint b + BAR_X layout) :: byte"
  let ?bar = "LcdSingleBar ?tmpIdx1 (word_of_int (BAR_Y layout))
                     (word_of_int (uint (data ! unat b) * uint multiplier)) width PIXEL_ON s"
  show ?case
  proof (cases "b < numbBars \<and> \<not> uint tmpIdx > LCD_X_RES - 1 \<and> \<not> unat b \<ge> length data")
    case False
    then have "res = Inr (OK, s) \<or> res = Inr (OUT_OF_BORDER, s) \<or> res = Inl ReadPastEnd"
      using step(2) by (auto split: if_splits)
    then show ?thesis by (auto simp add: grows_refl)
  next
    case True
    then have c: "b < numbBars" "\<not> uint tmpIdx > LCD_X_RES - 1" "\<not> unat b \<ge> length data"
      by simp_all
    have run: "(case ?bar of
                None \<Rightarrow> None
              | Some (Inl e) \<Rightarrow> Some (Inl e)
              | Some (Inr (response, s1)) \<Rightarrow>
                  if response = OUT_OF_BORDER then Some (Inr (response, s1))
                  else loop layout data numbBars width multiplier (b + 1) ?tmpIdx1 s1) = Some res"
      using step(2) unfolding if_P[OF c(1)] if_not_P[OF c(2)] if_not_P[OF c(3)] Let_def .
    show ?thesis
    proof (cases ?bar)
      case None
      then show ?thesis using run by simp
    next
      case (Some bar)
      show ?thesis
      proof (cases bar)
        case (Inl e)
        then have "res = Inl e" using run Some by simp
        then show ?thesis by simp
      next
        case (Inr p)
        obtain r1 s1 where p: "p = (r1, s1)" by (cases p)
        have "?bar = Some (Inr (r1, s1))" using Some Inr p by simp
        then have g: "grows s s1" by (rule LcdSingleBar_grows)
        have run': "(if r1 = OUT_OF_BORDER then Some (Inr (r1, s1))
                else loop layout data numbBars width multiplier (b + 1) ?tmpIdx1 s1) = Some res"
          using run Some Inr p by simp
        show ?thesis
        proof (cases "r1 = OUT_OF_BORDER")
          case True
          then have "res = Inr (r1, s1)" using run' by simp
          then show ?thesis using g by simp
        next
          case False
          then have "loop layout data numbBars width multiplier (b + 1) ?tmpIdx1 s1 = Some res"
            using run' by simp
          then show ?thesis using step(1) g grows_then by blast
        qed
      qed
    qed
  qed
qed

lemma LcdBars_grows:
  assumes "LcdBars layout data numbBars width multiplier s = Some (Inr (r, s'))"
  shows "grows s s'"
proof -
  obtain r2 s2 where l: "bars_loop layout data numbBars width multiplier 0 0 s = Some (Inr (r2, s2))"
    and s': "s' = s2 \<or> s' = s2\<lparr>UpdateLcd := True\<rparr>"
    using assms unfolding LcdBars_def
    by (auto split: option.splits sum.splits prod.splits if_splits)
  have "grows s s2" using bars_loop_grows[OF l] by simp
  then show ?thesis using s' grows_flag by auto
qed

lemma rect_loop_h_grows:
  "rect_loop_h tmpIdx x2 y1 y2 mode s = Some res \<Longrightarrow>
   (case res of Inl e \<Rightarrow> True | Inr s' \<Rightarrow> grows s s')"
proof (induction rule: rect_loop_h_partial_induct)
  case (step loop tmpIdx x2 y1 y2 mode s res)
  show ?case
  proof (cases "tmpIdx \<le> x2")
    case False
    then have "res = Inr s" using step(2) by simp
    then show ?thesis by (simp add: grows_refl)
  next
    case True
    obtain r1 s1 where p1: "LcdPixel tmpIdx y1 mode s = Inr (r1, s1)" "grows s s1"
      using LcdPixel_grows by blast
    obtain r2 s2 where p2: "LcdPixel tmpIdx y2 mode s1 = Inr (r2, s2)" "grows s1 s2"
      using LcdPixel_grows by blast
    have run: "loop (tmpIdx + 1) x2 y1 y2 mode s2 = Some res"
      using step(2) unfolding if_P[OF True] p1(1) sum.case prod.case p2(1) .
    have g: "grows s s2" using p1(2) p2(2) by (rule grows_trans)
    have "case res of Inl e \<Rightarrow> True | Inr s' \<Rightarrow> grows s2 s'" using step(1)[OF run] .
    then show ?thesis using g by (auto split: sum.splits intro: grows_trans)
  qed
qed

lemma rect_loop_v_grows:
  "rect_loop_v tmpIdx y2 x1 x2 mode s = Some res \<Longrightarrow>
   (case res of Inl e \<Rightarrow> True | Inr s' \<Rightarrow> grows s s')"
proof (induction rule: rect_loop_v_partial_induct)
  case (step loop tmpIdx y2 x1 x2 mode s res)
  show ?case
  proof (cases "tmpIdx \<le> y2")
    case False
    then have "res = Inr s" using step(2) by simp
    then show ?thesis by (simp add: grows_refl)
  next
    case True
    obtain r1 s1 where p1: "LcdPixel x1 tmpIdx mode s = Inr (r1, s1)" "grows s s1"
      using LcdPixel_grows by blast
    obtain r2 s2 where p2: "LcdPixel x2 tmpIdx mode s1 = Inr (r2, s2)" "grows s1 s2"
      using LcdPixel_grows by blast
    have run: "loop (tmpIdx + 1) y2 x1 x2 mode s2 = Some res"
      using step(2) unfolding if_P[OF True] p1(1) sum.case prod.case p2(1) .
    have g: "grows s s2" using p1(2) p2(2) by (rule grows_trans)
    have "case res of Inl e \<Rightarrow> True | Inr s' \<Rightarrow> grows s2 s'" using step(1)[OF run] .
    then show ?thesis using g by (auto split: sum.splits intro: grows_trans)
  qed
qed

lemma LcdRect_grows:
  assumes "LcdRect x1 y1 x2 y2 mode s = Some (Inr (r, s'))"
  shows "grows s s'"
proof (cases "\<not> (uint x1 \<ge> LCD_X_RES \<or> uint x2 \<ge> LCD_X_RES \<or> uint y1 \<ge> LCD_Y_RES \<or> uint y2 \<ge> LCD_Y_RES)
              \<and> x2 > x1 \<and> y2 > y1")
  case False
  then have "s' = s" using assms by (auto simp add: LcdRect_def split: if_splits)
  then show ?thesis by (simp add: grows_refl)
next
  case True
  then obtain s1 s2 where h: "rect_loop_h x1 x2 y1 y2 mode s = Some (Inr s1)"
    and v: "rect_loop_v y1 y2 x1 x2 mode s1 = Some (Inr s2)"
    and s': "s' = s2\<lparr>UpdateLcd := True\<rparr>"
    using assms unfolding LcdRect_def
    by (auto split: option.splits sum.splits if_splits)
  have "grows s s1" using rect_loop_h_grows[OF h] by simp
  moreover have "grows s1 s2" using rect_loop_v_grows[OF v] by simp
  ultimately have "grows s s2" by (rule grows_trans)
  then show ?thesis unfolding s' by (rule grows_flag)
qed

lemma str_loop_grows:
  "str_loop font fsize dataArray tmpIdx s = Some res \<Longrightarrow>
   (case res of Inl e \<Rightarrow> True | Inr (r, s') \<Rightarrow> r \<noteq> OUT_OF_BORDER \<longrightarrow> grows s s')"
proof (induction rule: str_loop_partial_induct)
  case (step loop font fsize dataArray tmpIdx s res)
  show ?case
  proof (cases "\<not> unat tmpIdx \<ge> length dataArray \<and> dataArray ! unat tmpIdx \<noteq> 0")
    case False
    then have "res = Inl ReadPastEnd \<or> res = Inr (OK, s)"
      using step(2) by (auto split: if_splits)
    then show ?thesis by (auto simp add: grows_refl)
  next
    case True
    then have c: "\<not> unat tmpIdx \<ge> length dataArray" "\<not> dataArray ! unat tmpIdx = 0" by simp_all
    have run: "(case LcdChr font fsize (dataArray ! unat tmpIdx) s of
              Inl e \<Rightarrow> Some (Inl e)
            | Inr (response, s1) \<Rightarrow>
                if response = OUT_OF_BORDER then Some (Inr (OUT_OF_BORDER, s1))
                else loop font fsize dataArray (tmpIdx + 1) s1) = Some res"
      using step(2) unfolding if_not_P[OF c(1)] if_not_P[OF c(2)] .
    show ?thesis
    proof (cases "LcdChr font fsize (dataArray ! unat tmpIdx) s")
      case (Inl e)
      then have "res = Inl e" using run by simp
      then show ?thesis by simp
    next
      case (Inr p)
      obtain r1 s1 where p: "p = (r1, s1)" by (cases p)
      have chr: "LcdChr font fsize (dataArray ! unat tmpIdx) s = Inr (r1, s1)"
        using Inr p by simp
      have run': "(if r1 = OUT_OF_BORDER then Some (Inr (OUT_OF_BORDER, s1))
                else loop font fsize dataArray (tmpIdx + 1) s1) = Some res"
        using run unfolding chr sum.case prod.case .
      show ?thesis
      proof (cases "r1 = OUT_OF_BORDER")
        case True
        then have "res = Inr (OUT_OF_BORDER, s1)" using run' by simp
        then show ?thesis by simp
      next
        case False
        then have g: "grows s s1" using LcdChr_grows[OF chr] by simp
        have "loop font fsize dataArray (tmpIdx + 1) s1 = Some res"
          using run' False by simp
        then have "case res of Inl e \<Rightarrow> True | Inr (r, s') \<Rightarrow> r \<noteq> OUT_OF_BORDER \<longrightarrow> grows s1 s'"
          by (rule step(1))
        then show ?thesis using g by (auto split: sum.splits intro: grows_trans)
      qed
    qed
  qed
qed

lemma LcdStr_grows:
  assumes "LcdStr font fsize dataArray s = Some (Inr (r, s'))" and "r \<noteq> OUT_OF_BORDER"
  shows "grows s s'"
  using str_loop_grows[of font fsize dataArray 0 s "Inr (r, s')"] assms
  by (simp add: LcdStr_def)

lemma LcdFStr_grows:
  "LcdFStr font fsize dataPtr s = Inr (r, s') \<Longrightarrow> r \<noteq> OUT_OF_BORDER \<Longrightarrow> grows s s'"
proof (induction dataPtr arbitrary: s)
  case Nil
  then show ?case by simp
next
  case (Cons c dataPtr)
  show ?case
  proof (cases "c = 0")
    case True
    then have "s' = s" using Cons.prems(1) by simp
    then show ?thesis by (simp add: grows_refl)
  next
    case False
    have run: "(case LcdChr font fsize c s of
              Inl e \<Rightarrow> Inl e
            | Inr (response, s1) \<Rightarrow>
                if response = OUT_OF_BORDER then Inr (OUT_OF_BORDER, s1)
                else LcdFStr font fsize dataPtr s1) = Inr (r, s')"
      using Cons.prems(1) False by simp
    show ?thesis
    proof (cases "LcdChr font fsize c s")
      case (Inl e)
      then show ?thesis using run by simp
    next
      case (Inr p)
      obtain r1 s1 where p: "p = (r1, s1)" by (cases p)
      have chr: "LcdChr font fsize c s = Inr (r1, s1)" using Inr p by simp
      have run': "(if r1 = OUT_OF_BORDER then Inr (OUT_OF_BORDER, s1)
                else LcdFStr font fsize dataPtr s1)
               = (Inr (r, s') :: fault + response \<times> lcd_state)"
        using run unfolding chr sum.case prod.case .
      have ne: "r1 \<noteq> OUT_OF_BORDER"
      proof
        assume "r1 = OUT_OF_BORDER"
        then have "r = OUT_OF_BORDER" using run' by simp
        then show False using Cons.prems(2) by simp
      qed
      have g: "grows s s1" using LcdChr_grows[OF chr ne] .
      have "LcdFStr font fsize dataPtr s1 = Inr (r, s')" using run' ne by simp
      then have "grows s1 s'" using Cons.IH Cons.prems(2) by blast
      with g show ?thesis by (rule grows_trans)
    qed
  qed
qed

lemma LcdImage_grows: "LcdImage imageData s = Inr s' \<Longrightarrow> grows s s'"
  unfolding grows_def
  by (rule exI[of _ "[0 .. 503]"]) (auto simp add: LcdImage_def split: if_splits)

lemma do_call_grows:
  assumes "do_call font layout c s = Some (Inr (r, s'))"
    and "\<not> chr_rejected [c] [r]"
  shows "grows s s'"
proof (cases c)
  case (CallPixel x y mode)
  then show ?thesis using assms(1) LcdPixel_grows[of x y mode s] by auto
next
  case (CallLine x1 y1 x2 y2 mode)
  then show ?thesis using assms(1) LcdLine_grows by simp
next
  case (CallCircle x y radius mode)
  then show ?thesis using assms(1) LcdCircle_grows by simp
next
  case (CallSingleBar baseX baseY height width mode)
  then show ?thesis using assms(1) LcdSingleBar_grows by simp
next
  case (CallBars data numbBars width multiplier)
  then show ?thesis using assms(1) LcdBars_grows by simp
next
  case (CallRect x1 y1 x2 y2 mode)
  then show ?thesis using assms(1) LcdRect_grows by simp
next
  case (CallGotoXYFont x y)
  then show ?thesis using assms(1) LcdGotoXYFont_grows by simp
next
  case (CallChr fsize ch)
  then show ?thesis using assms LcdChr_grows by simp
next
  case (CallStr fsize dataArray)
  then show ?thesis using assms LcdStr_grows by simp
next
  case (CallFStr fsize dataPtr)
  then show ?thesis using assms LcdFStr_grows by simp
next
  case (CallImage imageData)
  then show ?thesis using assms(1) LcdImage_grows by (auto split: sum.splits)
next
  case CallClear
  then show ?thesis using assms(1) LcdClear_grows by auto
next
  case (CallContrast contrast)
  then show ?thesis using assms(1) grows_refl by auto
qed

lemma chr_rejected_Cons:
  "chr_rejected (c # cs) (r # rs) \<longleftrightarrow> chr_rejected [c] [r] \<or> chr_rejected cs rs"
  by simp

lemma do_calls_Cons:
  assumes "do_calls font layout (c # cs) s = Some (Inr (rs, s'))"
  shows "\<exists>r s1 rs'. do_call font layout c s = Some (Inr (r, s1))
     \<and> do_calls font layout cs s1 = Some (Inr (rs', s')) \<and> rs = r # rs'"
  using assms by (auto split: option.splits sum.splits prod.splits)

lemma do_calls_grows:
  "do_calls font layout cs s = Some (Inr (rs, s')) \<Longrightarrow> \<not> chr_rejected cs rs \<Longrightarrow> grows s s'"
proof (induction cs arbitrary: s rs)
  case Nil
  then show ?case by (simp add: grows_refl)
next
  case (Cons c cs)
  obtain r s1 rs' where
    c: "do_call font layout c s = Some (Inr (r, s1))" and
    cs: "do_calls font layout cs s1 = Some (Inr (rs', s'))" and
    rs: "rs = r # rs'"
    using do_calls_Cons[OF Cons.prems(1)] by blast
  have nr: "\<not> chr_rejected [c] [r]" "\<not> chr_rejected cs rs'"
    using Cons.prems(2) chr_rejected_Cons[of c cs r rs'] rs by simp_all
  have "grows s s1" using do_call_grows[OF c nr(1)] .
  moreover have "grows s1 s'" using Cons.IH[OF cs nr(2)] .
  ultimately show ?case by (rule grows_trans)
qed

lemma grows_after_flush:
  assumes "grows s s1" and "LoWaterMark s = 503" and "HiWaterMark s = 0"
  shows "0 \<le> LoWaterMark s1 \<and> LoWaterMark s1 \<le> 503
       \<and> 0 \<le> HiWaterMark s1 \<and> HiWaterMark s1 \<le> 503"
    and "drop (length (Written s)) (Written s1) = [] \<Longrightarrow>
           LoWaterMark s1 = 503 \<and> HiWaterMark s1 = 0"
    and "drop (length (Written s)) (Written s1) \<noteq> [] \<Longrightarrow>
           Min (set (drop (length (Written s)) (Written s1))) \<le> LoWaterMark s1
         \<and> HiWaterMark s1 \<le> Max (set (drop (length (Written s)) (Written s1)))"
proof -
  obtain ws where ws: "Written s1 = Written s @ ws" "\<forall>i \<in> set ws. 0 \<le> i \<and> i < 504"
    "LoWaterMark s1 = LoWaterMark s \<or> LoWaterMark s1 \<in> set ws"
    "HiWaterMark s1 = HiWaterMark s \<or> HiWaterMark s1 \<in> set ws"
    using assms(1) unfolding grows_def by blast
  have W: "drop (length (Written s)) (Written s1) = ws" using ws(1) by simp
  show "0 \<le> LoWaterMark s1 \<and> LoWaterMark s1 \<le> 503
       \<and> 0 \<le> HiWaterMark s1 \<and> HiWaterMark s1 \<le> 503"
    using ws(2,3,4) assms(2,3) by fastforce
  show "LoWaterMark s1 = 503 \<and> HiWaterMark s1 = 0"
    if "drop (length (Written s)) (Written s1) = []"
    using that ws(3,4) assms(2,3) unfolding W by simp
  show "Min (set (drop (length (Written s)) (Written s1))) \<le> LoWaterMark s1
         \<and> HiWaterMark s1 \<le> Max (set (drop (length (Written s)) (Written s1)))"
    if ne: "drop (length (Written s)) (Written s1) \<noteq> []"
  proof -
    have ne': "ws \<noteq> []" using ne unfolding W .
    have fin: "finite (set ws)" "set ws \<noteq> {}" using ne' by simp_all
    have lo: "Min (set ws) \<le> LoWaterMark s1"
    proof (cases "LoWaterMark s1 \<in> set ws")
      case True
      then show ?thesis using fin by simp
    next
      case False
      then have "LoWaterMark s1 = 503" using ws(3) assms(2) by simp
      moreover have "Min (set ws) \<in> set ws" using fin by (rule Min_in)
      ultimately show ?thesis using ws(2) by fastforce
    qed
    have hi: "HiWaterMark s1 \<le> Max (set ws)"
    proof (cases "HiWaterMark s1 \<in> set ws")
      case True
      then show ?thesis using fin by simp
    next
      case False
      then have "HiWaterMark s1 = 0" using ws(4) assms(3) by simp
      moreover have "Max (set ws) \<in> set ws" using fin by (rule Max_in)
      ultimately show ?thesis using ws(2) by fastforce
    qed
    show ?thesis unfolding W using lo hi by simp
  qed
qed

text \<open>
  What \<open>LcdUpdate\<close> of the build with \<open>CHINA_LCD\<close> sends when the dirty range is the
  one byte \<open>k\<close>: the row address is one more than the page of \<open>k\<close>, and the address of
  the next row follows the data byte when \<open>k\<close> is in the last column.
\<close>

lemma LcdUpdate_china_one:
  assumes "0 \<le> k" "k < 504" "LoWaterMark p = k" "HiWaterMark p = k"
  shows "LcdUpdate True p =
     Inr ([(LCD_CMD, 0x80 OR word_of_int (k mod 84)),
           (LCD_CMD, 0x40 OR word_of_int (k div 84 + 1)),
           (LCD_DATA, LcdCache p ! nat k)]
          @ (if k mod 84 = 83
             then [(LCD_CMD, 0x80), (LCD_CMD, 0x40 OR word_of_int (k div 84 + 2))] else [])
          @ [(LCD_CMD, 0x21), (LCD_CMD, 0x45), (LCD_CMD, 0x20)],
          p\<lparr>LoWaterMark := 503, HiWaterMark := 0, UpdateLcd := False\<rparr>)"
proof -
  let ?x = "word_of_int (k mod 84) :: byte"
  let ?y = "word_of_int (k div 84 + 1) :: byte"
  have cl: "clamp_marks p = p" using assms by (simp add: clamp_marks_def clamp_mark_def)
  have m: "0 \<le> k mod 84" "k mod 84 < 84" by simp_all
  have ux: "uint (?x + 1) = k mod 84 + 1"
  proof -
    have a: "?x + 1 = (word_of_int (k mod 84 + 1) :: byte)" by simp
    have b: "uint (word_of_int (k mod 84 + 1) :: byte) = (k mod 84 + 1) mod 256"
      by (simp only: uint_word_of_int_eq take_bit_eq_mod) simp
    have c: "(k mod 84 + 1) mod 256 = k mod 84 + 1"
      using m by (intro mod_pos_pos_trivial) simp_all
    show ?thesis unfolding a b c ..
  qed
  have rd: "cache_read k p = Inr (LcdCache p ! nat k)" using assms by (simp add: cache_read_def)
  have stop: "update_loop_china (k + 1) a b p = Inr []" for a b
    by (subst update_loop_china.simps) (simp add: assms)
  have e: "update_loop_china k ?x ?y p =
      (if 84 \<le> uint (?x + 1)
       then Inr [(LCD_DATA, LcdCache p ! nat k), (LCD_CMD, 0x80), (LCD_CMD, 0x40 OR (?y + 1))]
       else Inr [(LCD_DATA, LcdCache p ! nat k)])"
    unfolding update_loop_china.simps[of k ?x ?y p]
    by (simp add: assms rd stop and_then_def Let_def LcdSend_def)
  have body: "update_loop_china k ?x ?y p =
      Inr ((LCD_DATA, LcdCache p ! nat k)
           # (if k mod 84 = 83
              then [(LCD_CMD, 0x80), (LCD_CMD, 0x40 OR word_of_int (k div 84 + 2))] else []))"
  proof (cases "k mod 84 = 83")
    case True
    have w: "84 \<le> uint (?x + 1)" unfolding ux using True by simp
    show ?thesis unfolding e if_P[OF w] if_P[OF True] by (simp add: add.commute)
  next
    case False
    have w: "\<not> 84 \<le> uint (?x + 1)" unfolding ux using False m by simp
    show ?thesis unfolding e if_not_P[OF w] if_not_P[OF False] by simp
  qed
  show ?thesis
    unfolding LcdUpdate_def Let_def cl assms(3) if_True body
    by (simp add: and_then_def LcdSend_def)
qed

section \<open>Calls that return and calls that do not\<close>

text \<open>
  Every loop of the drawing functions ends: \<open>LcdPixel\<close> rejects a coordinate before a
  byte counter can pass 255, the counters of \<open>LcdRect\<close> and of the rows of
  \<open>LcdSingleBar\<close> stop below 84 and 48, \<open>LcdLine\<close> steps one coordinate towards
  its end point, and in \<open>LcdCircle\<close> \<open>yc\<close> is at most 126 after the first round so
  that \<open>xc\<close> passes it before it reaches 127.
\<close>

lemma LcdPixel_returns: "\<exists>r s'. LcdPixel x y mode s = Inr (r, s')"
  using LcdPixel_grows by blast

lemma LcdPixel_OK_in: "LcdPixel x y mode s = Inr (OK, s') \<Longrightarrow> uint x < 84 \<and> uint y < 48"
  by (auto simp add: LcdPixel_def split: if_splits)

lemma unat_succ_byte:
  assumes "unat (w :: byte) < 255"
  shows "unat (w + 1) = unat w + 1"
proof -
  have "unat (w + 1) = (unat w + 1) mod 256" by (simp add: unat_word_ariths)
  then show ?thesis using assms by simp
qed

lemma unat_byte_less: "unat (w :: byte) < 256"
  using unsigned_less[of w, where 'a = nat] by simp

lemma sint_succ_byte: "sint (xc :: byte) < 127 \<Longrightarrow> sint (xc + 1) = sint xc + 1"
proof -
  assume a: "sint xc < 127"
  have b: "- 128 \<le> sint xc" using sint_ge[of xc] by simp
  have "sint (xc + 1) = signed_take_bit 7 (sint xc + 1)"
    by (simp add: sint_word_ariths)
  also have "\<dots> = sint xc + 1"
    using a b by (simp add: signed_take_bit_int_eq_self)
  finally show ?thesis .
qed

lemma sint_pred_byte: "- 128 < sint (yc :: byte) \<Longrightarrow> sint (yc - 1) = sint yc - 1"
proof -
  assume a: "- 128 < sint yc"
  have b: "sint yc < 128" using sint_lt[of yc] by simp
  have "sint (yc - 1) = signed_take_bit 7 (sint yc - 1)"
    by (simp add: sint_word_ariths)
  also have "\<dots> = sint yc - 1"
    using a b by (simp add: signed_take_bit_int_eq_self)
  finally show ?thesis .
qed

lemma circle_loop_returns:
  "0 \<le> sint xc \<Longrightarrow> sint yc \<le> 126 \<Longrightarrow>
   \<exists>s'. circle_loop x y mode xc yc p s = Some (Inr s')"
proof (induction "nat (sint yc - sint xc + 1)" arbitrary: xc yc p s rule: less_induct)
  case less
  show ?case
  proof (cases "sint xc \<le> sint yc")
    case False
    then show ?thesis by (subst circle_loop.simps) simp
  next
    case True
    obtain s1 where s1: "plot8 x y xc yc mode s = Inr s1" using plot8_grows by blast
    have x1: "sint (xc + 1) = sint xc + 1" using True less.prems by (intro sint_succ_byte) simp
    have y1: "sint (yc - 1) = sint yc - 1" using True less.prems by (intro sint_pred_byte) simp
    have a: "\<exists>s'. circle_loop x y mode (xc + 1) yc (p + (push_bit 2 xc + 6)) s1 = Some (Inr s')"
      using True less.prems by (intro less.hyps) (simp_all add: x1)
    have b: "\<exists>s'. circle_loop x y mode (xc + 1) (yc - 1) (p + (push_bit 2 (xc - yc) + 10)) s1
                 = Some (Inr s')"
      using True less.prems by (intro less.hyps) (simp_all add: x1 y1)
    show ?thesis
      using a b by (subst circle_loop.simps) (simp add: True s1)
  qed
qed

lemma LcdCircle_returns: "\<exists>r s'. LcdCircle x y radius mode s = Some (Inr (r, s'))"
proof -
  have loop: "\<exists>s'. circle_loop x y mode 0 radius (3 - push_bit 1 radius) s = Some (Inr s')"
  proof (cases "sint radius \<le> 126")
    case True
    then show ?thesis by (intro circle_loop_returns) simp_all
  next
    case False
    have "sint radius < 128" using sint_lt[of radius] by simp
    then have "sint radius = sint (127 :: byte)" using False by simp
    then have r: "radius = 127" by (rule signed_word_eqI)
    obtain s1 where s1: "plot8 x y 0 127 mode s = Inr s1" using plot8_grows by blast
    have nxt: "\<exists>s'. circle_loop x y mode 1 126 p s1 = Some (Inr s')" for p
      by (intro circle_loop_returns) simp_all
    show ?thesis
      unfolding r using nxt by (subst circle_loop.simps) (simp add: s1)
  qed
  then show ?thesis by (auto simp add: LcdCircle_def)
qed

lemma uint_less_unat: "uint (w :: byte) < 84 \<Longrightarrow> unat w < 255"
proof -
  assume a: "uint w < 84"
  have "int (unat w) = uint w" by (rule of_nat_unat)
  then have "int (unat w) < 84" using a by (simp only:)
  then show ?thesis by linarith
qed

lemma rect_loop_h_returns:
  "unat x2 < 255 \<Longrightarrow> \<exists>s'. rect_loop_h tmpIdx x2 y1 y2 mode s = Some (Inr s')"
proof (induction "unat x2 + 1 - unat tmpIdx" arbitrary: tmpIdx s rule: less_induct)
  case less
  show ?case
  proof (cases "tmpIdx \<le> x2")
    case False
    then show ?thesis by (subst rect_loop_h.simps) simp
  next
    case True
    then have le: "unat tmpIdx \<le> unat x2" by (simp add: word_le_nat_alt)
    have suc: "unat (tmpIdx + 1) = unat tmpIdx + 1"
      using le less.prems by (intro unat_succ_byte) simp
    obtain r1 s1 where p1: "LcdPixel tmpIdx y1 mode s = Inr (r1, s1)"
      using LcdPixel_returns by blast
    obtain r2 s2 where p2: "LcdPixel tmpIdx y2 mode s1 = Inr (r2, s2)"
      using LcdPixel_returns by blast
    have "\<exists>s'. rect_loop_h (tmpIdx + 1) x2 y1 y2 mode s2 = Some (Inr s')"
      using le less.prems by (intro less.hyps) (simp_all add: suc)
    then show ?thesis by (subst rect_loop_h.simps) (simp add: True p1 p2)
  qed
qed

lemma rect_loop_v_returns:
  "unat y2 < 255 \<Longrightarrow> \<exists>s'. rect_loop_v tmpIdx y2 x1 x2 mode s = Some (Inr s')"
proof (induction "unat y2 + 1 - unat tmpIdx" arbitrary: tmpIdx s rule: less_induct)
  case less
  show ?case
  proof (cases "tmpIdx \<le> y2")
    case False
    then show ?thesis by (subst rect_loop_v.simps) simp
  next
    case True
    then have le: "unat tmpIdx \<le> unat y2" by (simp add: word_le_nat_alt)
    have suc: "unat (tmpIdx + 1) = unat tmpIdx + 1"
      using le less.prems by (intro unat_succ_byte) simp
    obtain r1 s1 where p1: "LcdPixel x1 tmpIdx mode s = Inr (r1, s1)"
      using LcdPixel_returns by blast
    obtain r2 s2 where p2: "LcdPixel x2 tmpIdx mode s1 = Inr (r2, s2)"
      using LcdPixel_returns by blast
    have "\<exists>s'. rect_loop_v (tmpIdx + 1) y2 x1 x2 mode s2 = Some (Inr s')"
      using le less.prems by (intro less.hyps) (simp_all add: suc)
    then show ?thesis by (subst rect_loop_v.simps) (simp add: True p1 p2)
  qed
qed

lemma LcdRect_returns: "\<exists>r s'. LcdRect x1 y1 x2 y2 mode s = Some (Inr (r, s'))"
proof (cases "uint x1 \<ge> LCD_X_RES \<or> uint x2 \<ge> LCD_X_RES \<or> uint y1 \<ge> LCD_Y_RES \<or> uint y2 \<ge> LCD_Y_RES")
  case True
  then show ?thesis by (simp add: LcdRect_def)
next
  case False
  then have "uint x2 < 84" "uint y2 < 84" by simp_all
  then have b: "unat x2 < 255" "unat y2 < 255" by (simp_all only: uint_less_unat)
  obtain s1 where h: "rect_loop_h x1 x2 y1 y2 mode s = Some (Inr s1)"
    using rect_loop_h_returns[OF b(1)] by blast
  obtain s2 where v: "rect_loop_v y1 y2 x1 x2 mode s1 = Some (Inr s2)"
    using rect_loop_v_returns[OF b(2)] by blast
  show ?thesis using False by (simp add: LcdRect_def h v)
qed

lemma bar_row_returns:
  "\<exists>r s'. bar_row tmpIdxX tmpIdxY baseX width mode s = Some (Inr (r, s'))"
proof (induction "256 - unat tmpIdxX" arbitrary: tmpIdxX s rule: less_induct)
  case less
  show ?case
  proof (cases "uint tmpIdxX < uint baseX + uint width")
    case False
    then show ?thesis by (subst bar_row.simps) simp
  next
    case True
    obtain r1 s1 where p1: "LcdPixel tmpIdxX tmpIdxY mode s = Inr (r1, s1)"
      using LcdPixel_returns by blast
    show ?thesis
    proof (cases "r1 \<noteq> OK")
      case True
      then show ?thesis by (subst bar_row.simps) (simp add: p1)
    next
      case False
      then have "uint tmpIdxX < 84" using p1 LcdPixel_OK_in by blast
      then have lt: "unat tmpIdxX < 255" by (rule uint_less_unat)
      have suc: "unat (tmpIdxX + 1) = unat tmpIdxX + 1" using lt by (rule unat_succ_byte)
      have "\<exists>r s'. bar_row (tmpIdxX + 1) tmpIdxY baseX width mode s1 = Some (Inr (r, s'))"
        using lt by (intro less.hyps) (simp add: suc)
      then show ?thesis using False by (subst bar_row.simps) (simp add: True p1)
    qed
  qed
qed

lemma bar_rows_returns:
  "unat baseY < 255 \<Longrightarrow>
   \<exists>r s'. bar_rows tmpIdxY baseX baseY width mode s = Some (Inr (r, s'))"
proof (induction "unat baseY + 1 - unat tmpIdxY" arbitrary: tmpIdxY s rule: less_induct)
  case less
  show ?case
  proof (cases "tmpIdxY \<le> baseY")
    case False
    then show ?thesis by (subst bar_rows.simps) simp
  next
    case True
    then have le: "unat tmpIdxY \<le> unat baseY" by (simp add: word_le_nat_alt)
    have suc: "unat (tmpIdxY + 1) = unat tmpIdxY + 1"
      using le less.prems by (intro unat_succ_byte) simp
    obtain r1 s1 where row: "bar_row baseX tmpIdxY baseX width mode s = Some (Inr (r1, s1))"
      using bar_row_returns by blast
    have "\<exists>r s'. bar_rows (tmpIdxY + 1) baseX baseY width mode s1 = Some (Inr (r, s'))"
      using le less.prems by (intro less.hyps) (simp_all add: suc)
    then show ?thesis by (subst bar_rows.simps) (simp add: True row)
  qed
qed

lemma LcdSingleBar_returns:
  "\<exists>r s'. LcdSingleBar baseX baseY height width mode s = Some (Inr (r, s'))"
proof (cases "uint baseX \<ge> LCD_X_RES \<or> uint baseY \<ge> LCD_Y_RES")
  case True
  then show ?thesis by (simp add: LcdSingleBar_def)
next
  case False
  then have "uint baseY < 84" by simp
  then have b: "unat baseY < 255" by (rule uint_less_unat)
  obtain r1 s1 where rows:
    "bar_rows (if height > baseY then 0 else baseY - height + 1) baseX baseY width mode s
       = Some (Inr (r1, s1))"
    using bar_rows_returns[OF b] by blast
  show ?thesis using False by (simp add: LcdSingleBar_def Let_def rows)
qed

lemma bars_loop_returns:
  "\<exists>res. bars_loop layout data numbBars width multiplier b tmpIdx s = Some res"
proof (induction "unat numbBars - unat b" arbitrary: b tmpIdx s rule: less_induct)
  case less
  let ?tmpIdx1 = "word_of_int ((uint width + EMPTY_SPACE_BARS layout) * uint b + BAR_X layout) :: byte"
  let ?bar = "LcdSingleBar ?tmpIdx1 (word_of_int (BAR_Y layout))
                     (word_of_int (uint (data ! unat b) * uint multiplier)) width PIXEL_ON s"
  show ?case
  proof (cases "b < numbBars \<and> \<not> uint tmpIdx > LCD_X_RES - 1 \<and> \<not> unat b \<ge> length data")
    case False
    then show ?thesis by (subst bars_loop.simps) auto
  next
    case True
    then have c: "b < numbBars" "\<not> uint tmpIdx > LCD_X_RES - 1" "\<not> unat b \<ge> length data"
      by simp_all
    have lt: "unat b < unat numbBars" using c(1) by (simp add: word_less_nat_alt)
    have "unat numbBars < 256" by (rule unat_byte_less)
    then have suc: "unat (b + 1) = unat b + 1" using lt by (intro unat_succ_byte) simp
    obtain r1 s1 where bar: "?bar = Some (Inr (r1, s1))" using LcdSingleBar_returns by blast
    have rec: "\<exists>res. bars_loop layout data numbBars width multiplier (b + 1) ?tmpIdx1 s1 = Some res"
      using lt by (intro less.hyps) (simp add: suc)
    have "\<exists>res. (if r1 = OUT_OF_BORDER then Some (Inr (r1, s1))
                else bars_loop layout data numbBars width multiplier (b + 1) ?tmpIdx1 s1)
             = Some res"
      using rec by (cases "r1 = OUT_OF_BORDER") simp_all
    then show ?thesis
      unfolding bars_loop.simps[of layout data numbBars width multiplier b tmpIdx s]
        if_P[OF c(1)] if_not_P[OF c(2)] if_not_P[OF c(3)] Let_def bar
        option.case sum.case prod.case .
  qed
qed

lemma LcdBars_returns: "\<exists>res. LcdBars layout data numbBars width multiplier s = Some res"
proof -
  obtain res where "bars_loop layout data numbBars width multiplier 0 0 s = Some res"
    using bars_loop_returns by blast
  then show ?thesis by (simp add: LcdBars_def split: sum.splits prod.splits)
qed

lemma unat_pred_less: "(w :: byte) \<noteq> 0 \<Longrightarrow> unat (w - 1) < unat w"
proof -
  assume a: "w \<noteq> 0"
  then have "unat w \<noteq> 0" by (simp add: unat_eq_zero)
  moreover have "unat (w - 1) = unat w - 1" using a by (rule unat_minus_one)
  ultimately show ?thesis by simp
qed

lemma line_loop_x_returns:
  "stepx = 1 \<or> stepx = - 1 \<Longrightarrow>
   \<exists>r s'. line_loop_x dx dy stepx stepy x2 mode fraction x1 y1 s = Some (Inr (r, s'))"
proof (induction "if stepx = 1 then unat (x2 - x1) else unat (x1 - x2)"
       arbitrary: fraction x1 y1 s rule: less_induct)
  case less
  show ?case
  proof (cases "x1 \<noteq> x2")
    case False
    then show ?thesis by (subst line_loop_x.simps) simp
  next
    case True
    let ?y1a = "(if fraction \<ge> 0 then word_of_int (uint y1 + stepy) else y1) :: byte"
    let ?x1a = "word_of_int (uint x1 + stepx) :: byte"
    let ?fraction2 = "(if fraction \<ge> 0 then fraction - dx else fraction) + dy"
    obtain r1 s1 where px: "LcdPixel ?x1a ?y1a mode s = Inr (r1, s1)"
      using LcdPixel_returns by blast
    have dec: "(if stepx = 1 then unat (x2 - ?x1a) else unat (?x1a - x2))
             < (if stepx = 1 then unat (x2 - x1) else unat (x1 - x2))"
    proof (cases "stepx = 1")
      case True
      have "x2 - x1 \<noteq> 0" using \<open>x1 \<noteq> x2\<close> by simp
      then have lt: "unat (x2 - x1 - 1) < unat (x2 - x1)" by (rule unat_pred_less)
      have eq: "x2 - ?x1a = x2 - x1 - 1" using True by simp
      show ?thesis unfolding if_P[OF True] eq using lt .
    next
      case False
      then have m: "stepx = - 1" using less.prems by simp
      have "x1 - x2 \<noteq> 0" using \<open>x1 \<noteq> x2\<close> by simp
      then have lt: "unat (x1 - x2 - 1) < unat (x1 - x2)" by (rule unat_pred_less)
      have eq: "?x1a - x2 = x1 - x2 - 1" using m by simp
      show ?thesis unfolding if_not_P[OF False] eq using lt .
    qed
    have rec: "\<exists>r s'. line_loop_x dx dy stepx stepy x2 mode ?fraction2 ?x1a ?y1a s1
                 = Some (Inr (r, s'))"
      using dec less.prems by (rule less.hyps)
    have "\<exists>r s'. (if r1 \<noteq> OK then Some (Inr (r1, s1))
           else line_loop_x dx dy stepx stepy x2 mode ?fraction2 ?x1a ?y1a s1)
          = Some (Inr (r, s'))"
      using rec by (cases "r1 \<noteq> OK") simp_all
    then show ?thesis
      unfolding line_loop_x.simps[of dx dy stepx stepy x2 mode fraction x1 y1 s]
        if_P[OF True] Let_def px sum.case prod.case .
  qed
qed

lemma line_loop_y_returns:
  "stepy = 1 \<or> stepy = - 1 \<Longrightarrow>
   \<exists>r s'. line_loop_y dx dy stepx stepy y2 mode fraction x1 y1 s = Some (Inr (r, s'))"
proof (induction "if stepy = 1 then unat (y2 - y1) else unat (y1 - y2)"
       arbitrary: fraction x1 y1 s rule: less_induct)
  case less
  show ?case
  proof (cases "y1 \<noteq> y2")
    case False
    then show ?thesis by (subst line_loop_y.simps) simp
  next
    case True
    let ?x1a = "(if fraction \<ge> 0 then word_of_int (uint x1 + stepx) else x1) :: byte"
    let ?y1a = "word_of_int (uint y1 + stepy) :: byte"
    let ?fraction2 = "(if fraction \<ge> 0 then fraction - dy else fraction) + dx"
    obtain r1 s1 where px: "LcdPixel ?x1a ?y1a mode s = Inr (r1, s1)"
      using LcdPixel_returns by blast
    have dec: "(if stepy = 1 then unat (y2 - ?y1a) else unat (?y1a - y2))
             < (if stepy = 1 then unat (y2 - y1) else unat (y1 - y2))"
    proof (cases "stepy = 1")
      case True
      have "y2 - y1 \<noteq> 0" using \<open>y1 \<noteq> y2\<close> by simp
      then have lt: "unat (y2 - y1 - 1) < unat (y2 - y1)" by (rule unat_pred_less)
      have eq: "y2 - ?y1a = y2 - y1 - 1" using True by simp
      show ?thesis unfolding if_P[OF True] eq using lt .
    next
      case False
      then have m: "stepy = - 1" using less.prems by simp
      have "y1 - y2 \<noteq> 0" using \<open>y1 \<noteq> y2\<close> by simp
      then have lt: "unat (y1 - y2 - 1) < unat (y1 - y2)" by (rule unat_pred_less)
      have eq: "?y1a - y2 = y1 - y2 - 1" using m by simp
      show ?thesis unfolding if_not_P[OF False] eq using lt .
    qed
    have rec: "\<exists>r s'. line_loop_y dx dy stepx stepy y2 mode ?fraction2 ?x1a ?y1a s1
                 = Some (Inr (r, s'))"
      using dec less.prems by (rule less.hyps)
    have "\<exists>r s'. (if r1 \<noteq> OK then Some (Inr (r1, s1))
           else line_loop_y dx dy stepx stepy y2 mode ?fraction2 ?x1a ?y1a s1)
          = Some (Inr (r, s'))"
      using rec by (cases "r1 \<noteq> OK") simp_all
    then show ?thesis
      unfolding line_loop_y.simps[of dx dy stepx stepy y2 mode fraction x1 y1 s]
        if_P[OF True] Let_def px sum.case prod.case .
  qed
qed

lemma LcdLine_returns: "\<exists>r s'. LcdLine x1 y1 x2 y2 mode s = Some (Inr (r, s'))"
proof -
  define dx where "dx = (if uint x2 - uint x1 < 0 then - (uint x2 - uint x1) else uint x2 - uint x1) * 2"
  define dy where "dy = (if uint y2 - uint y1 < 0 then - (uint y2 - uint y1) else uint y2 - uint y1) * 2"
  define stepx :: int where "stepx = (if uint x2 - uint x1 < 0 then - 1 else 1)"
  define stepy :: int where "stepy = (if uint y2 - uint y1 < 0 then - 1 else 1)"
  have sx: "stepx = 1 \<or> stepx = - 1" and sy: "stepy = 1 \<or> stepy = - 1"
    by (simp_all add: stepx_def stepy_def)
  obtain r1 s1 where px: "LcdPixel x1 y1 mode s = Inr (r1, s1)"
    using LcdPixel_returns by blast
  define loop where "loop = (if dx > dy
                      then line_loop_x dx dy stepx stepy x2 mode (dy - dx div 2) x1 y1 s1
                      else line_loop_y dx dy stepx stepy y2 mode (dx - dy div 2) x1 y1 s1)"
  have "\<exists>r2 s2. loop = Some (Inr (r2, s2))"
  proof (cases "dx > dy")
    case True
    then show ?thesis unfolding loop_def using line_loop_x_returns[OF sx] by simp
  next
    case False
    then show ?thesis unfolding loop_def using line_loop_y_returns[OF sy] by simp
  qed
  then obtain r2 s2 where l: "loop = Some (Inr (r2, s2))" by blast
  have e: "LcdLine x1 y1 x2 y2 mode s =
      (if r1 \<noteq> OK then Some (Inr (r1, s1))
       else (case loop of
                  None \<Rightarrow> None
                | Some (Inl e) \<Rightarrow> Some (Inl e)
                | Some (Inr (response, s2)) \<Rightarrow>
                    if response \<noteq> OK then Some (Inr (response, s2))
                    else Some (Inr (OK, s2\<lparr>UpdateLcd := True\<rparr>))))"
    unfolding LcdLine_def Let_def px sum.case prod.case
      dx_def dy_def stepx_def stepy_def loop_def by simp
  show ?thesis unfolding e l by simp
qed

text \<open>
  \<open>LcdStr\<close> returns when one of the first 256 bytes of the array is zero. It does not
  return when none of them is, the font is \<open>FONT_1X\<close> and the cursor is at the start of
  a text cell: the index is back at 0 after 255, and the cursor goes round the cache.
\<close>

lemma str_loop_returns:
  "unat tmpIdx \<le> i \<Longrightarrow> i < length dataArray \<Longrightarrow> i < 256 \<Longrightarrow> dataArray ! i = 0 \<Longrightarrow>
   \<exists>res. str_loop font fsize dataArray tmpIdx s = Some res"
proof (induction "i - unat tmpIdx" arbitrary: tmpIdx s rule: less_induct)
  case less
  have c1: "\<not> unat tmpIdx \<ge> length dataArray" using less.prems by simp
  show ?case
  proof (cases "dataArray ! unat tmpIdx = 0")
    case True
    then show ?thesis using c1 by (subst str_loop.simps) simp
  next
    case False
    then have "unat tmpIdx \<noteq> i" using less.prems(4) by auto
    then have lt: "unat tmpIdx < i" using less.prems(1) by simp
    have suc: "unat (tmpIdx + 1) = unat tmpIdx + 1"
      using lt less.prems(3) by (intro unat_succ_byte) simp
    have rec: "\<exists>res. str_loop font fsize dataArray (tmpIdx + 1) s1 = Some res" for s1
      using lt less.prems by (intro less.hyps) (simp_all add: suc)
    show ?thesis
    proof (cases "LcdChr font fsize (dataArray ! unat tmpIdx) s")
      case (Inl e)
      show ?thesis
        unfolding str_loop.simps[of font fsize dataArray tmpIdx s]
          if_not_P[OF c1] if_not_P[OF False] Inl sum.case by simp
    next
      case (Inr p)
      obtain r1 s1 where p: "p = (r1, s1)" by (cases p)
      have "\<exists>res. (if r1 = OUT_OF_BORDER then Some (Inr (OUT_OF_BORDER, s1))
                else str_loop font fsize dataArray (tmpIdx + 1) s1) = Some res"
        using rec[of s1] by (cases "r1 = OUT_OF_BORDER") simp_all
      then show ?thesis
        unfolding str_loop.simps[of font fsize dataArray tmpIdx s]
          if_not_P[OF c1] if_not_P[OF False] Inr p sum.case prod.case .
    qed
  qed
qed

lemma LcdStr_returns:
  assumes "i < length dataArray" "i < 256" "dataArray ! i = 0"
  shows "\<exists>res. LcdStr font fsize dataArray s = Some res"
  unfolding LcdStr_def using assms by (intro str_loop_returns[of 0 i]) simp_all

lemma chr_finish_cursor:
  assumes "0 \<le> LcdCacheIdx s" "LcdCacheIdx s < 504"
  shows "\<exists>r s'. chr_finish s = Inr (r, s') \<and> r \<noteq> OUT_OF_BORDER
     \<and> LcdCacheIdx s' = (if LcdCacheIdx s = 503 then 0 else LcdCacheIdx s + 1)"
  using assms by (simp add: chr_finish_def Let_def cache_write_def and_then_def)

lemma LcdChr_1x_cursor:
  assumes "0 \<le> LcdCacheIdx s" "LcdCacheIdx s \<le> 498"
  shows "\<exists>r s'. LcdChr font FONT_1X ch s = Inr (r, s') \<and> r \<noteq> OUT_OF_BORDER
     \<and> LcdCacheIdx s' = (if LcdCacheIdx s = 498 then 0 else LcdCacheIdx s + 6)"
proof -
  let ?s1 = "(if LcdCacheIdx s < LoWaterMark s
                then s\<lparr>LoWaterMark := LcdCacheIdx s\<rparr> else s)"
  let ?ch1 = "(if ch \<ge> 0x20 \<and> ch \<le> 0x7F then ch - 32
                 else if ch \<ge> 0xC0 then ch - 96 else 95)"
  have c: "0 \<le> LcdCacheIdx ?s1" "LcdCacheIdx ?s1 \<le> 498" using assms by simp_all
  obtain s2 where s2: "chr_loop_1x font ?ch1 0 ?s1 = Inr s2" "LcdCacheIdx s2 = LcdCacheIdx ?s1 + 5"
    using chr_loop_1x_in_bounds[OF c] by blast
  have i2: "LcdCacheIdx s2 = LcdCacheIdx s + 5" using s2(2) by simp
  have "0 \<le> LcdCacheIdx s2" "LcdCacheIdx s2 < 504" using i2 assms by simp_all
  then obtain r s' where f: "chr_finish s2 = Inr (r, s')" "r \<noteq> OUT_OF_BORDER"
    "LcdCacheIdx s' = (if LcdCacheIdx s2 = 503 then 0 else LcdCacheIdx s2 + 1)"
    using chr_finish_cursor by blast
  have "and_then (chr_loop_1x font ?ch1 0 ?s1) chr_finish = Inr (r, s')"
    using s2(1) f(1) by (simp add: and_then_def)
  then have "LcdChr font FONT_1X ch s = Inr (r, s')"
    by (simp only: LcdChr_def Let_def LcdFontSize.case)
  moreover have "LcdCacheIdx s' = (if LcdCacheIdx s = 498 then 0 else LcdCacheIdx s + 6)"
    using f(3) i2 by simp
  ultimately show ?thesis using f(2) by blast
qed

lemma str_loop_no_result:
  assumes "str_loop font fsize dataArray tmpIdx s = Some res"
  shows "\<not> (fsize = FONT_1X \<and> 256 \<le> length dataArray \<and> (\<forall>i < 256. dataArray ! i \<noteq> 0)
          \<and> 0 \<le> LcdCacheIdx s \<and> LcdCacheIdx s \<le> 498 \<and> LcdCacheIdx s mod 6 = 0)"
  using assms
proof (induction rule: str_loop_partial_induct)
  case (step loop font fsize dataArray tmpIdx s res)
  show ?case
  proof
    assume inv: "fsize = FONT_1X \<and> 256 \<le> length dataArray \<and> (\<forall>i < 256. dataArray ! i \<noteq> 0)
          \<and> 0 \<le> LcdCacheIdx s \<and> LcdCacheIdx s \<le> 498 \<and> LcdCacheIdx s mod 6 = 0"
    have u: "unat tmpIdx < 256" using unsigned_less[of tmpIdx, where 'a = nat] by simp
    have c1: "\<not> length dataArray \<le> unat tmpIdx" using inv u by simp
    have c2: "\<not> dataArray ! unat tmpIdx = 0" using inv u by simp
    obtain r1 s1 where chr: "LcdChr font fsize (dataArray ! unat tmpIdx) s = Inr (r1, s1)"
      and r1: "r1 \<noteq> OUT_OF_BORDER"
      and i1: "LcdCacheIdx s1 = (if LcdCacheIdx s = 498 then 0 else LcdCacheIdx s + 6)"
      using LcdChr_1x_cursor[of s font "dataArray ! unat tmpIdx"] inv by blast
    have "(if r1 = OUT_OF_BORDER then Some (Inr (OUT_OF_BORDER, s1))
           else loop font fsize dataArray (tmpIdx + 1) s1) = Some res"
      using step(2) unfolding if_not_P[OF c1] if_not_P[OF c2] chr sum.case prod.case .
    then have run: "loop font fsize dataArray (tmpIdx + 1) s1 = Some res"
      using r1 by simp
    have a: "0 \<le> LcdCacheIdx s" "LcdCacheIdx s \<le> 498" "LcdCacheIdx s mod 6 = 0"
      using inv by simp_all
    have "LcdCacheIdx s \<noteq> 498 \<Longrightarrow> LcdCacheIdx s \<le> 492" using a by presburger
    then have "0 \<le> LcdCacheIdx s1 \<and> LcdCacheIdx s1 \<le> 498 \<and> LcdCacheIdx s1 mod 6 = 0"
      using inv unfolding i1 by (cases "LcdCacheIdx s = 498") simp_all
    then show False using step(1)[OF run] inv by simp
  qed
qed

lemma LcdStr_no_result:
  assumes "256 \<le> length dataArray" "\<forall>i < 256. dataArray ! i \<noteq> 0"
    and "0 \<le> LcdCacheIdx s" "LcdCacheIdx s \<le> 498" "LcdCacheIdx s mod 6 = 0"
  shows "LcdStr font FONT_1X dataArray s = None"
proof (cases "LcdStr font FONT_1X dataArray s")
  case None
  then show ?thesis .
next
  case (Some res)
  then have "str_loop font FONT_1X dataArray 0 s = Some res" by (simp add: LcdStr_def)
  then show ?thesis using str_loop_no_result[of font FONT_1X dataArray 0 s res] assms by simp
qed

text \<open>Every call other than \<open>LcdStr\<close> returns or stops with a fault.\<close>

lemma do_call_returns:
  assumes "\<And>fsize dataArray. c \<noteq> CallStr fsize dataArray"
  shows "\<exists>res. do_call font layout c s = Some res"
proof (cases c)
  case (CallLine x1 y1 x2 y2 mode)
  then show ?thesis using LcdLine_returns[of x1 y1 x2 y2 mode s] by auto
next
  case (CallCircle x y radius mode)
  then show ?thesis using LcdCircle_returns[of x y radius mode s] by auto
next
  case (CallSingleBar baseX baseY height width mode)
  then show ?thesis using LcdSingleBar_returns[of baseX baseY height width mode s] by auto
next
  case (CallBars data numbBars width multiplier)
  then show ?thesis using LcdBars_returns by simp
next
  case (CallRect x1 y1 x2 y2 mode)
  then show ?thesis using LcdRect_returns[of x1 y1 x2 y2 mode s] by auto
next
  case (CallStr fsize dataArray)
  then show ?thesis using assms by simp
next
  case (CallImage imageData)
  then show ?thesis by (simp split: sum.splits)
qed simp_all

text \<open>
  C4, as amended. From a state with the empty dirty range (\<open>LoWaterMark = 503\<close>,
  \<open>HiWaterMark = 0\<close>): a successful \<open>LcdPixel\<close> call with cache index \<open>k\<close>, followed by
  \<open>LcdUpdate\<close>, sends one data byte, the byte at \<open>k\<close>. The build without \<open>CHINA_LCD\<close>
  sends the commands \<open>0x80 | k mod 84\<close> and \<open>0x40 | k div 84\<close> before it. The build
  with \<open>CHINA_LCD\<close> sends \<open>0x80 | k mod 84\<close> and \<open>0x40 | (k div 84 + 1)\<close> before it,
  \<open>0x80\<close> and \<open>0x40 | (k div 84 + 2)\<close> after it when \<open>k mod 84 = 83\<close>, and then
  \<open>0x21\<close>, \<open>0x45\<close>, \<open>0x20\<close>.
  And after any sequence of calls of the other functions of the driver in which every
  call returns, none reads or writes outside an array, and no \<open>LcdChr\<close>, \<open>LcdStr\<close> or
  \<open>LcdFStr\<close> call returns \<open>OUT_OF_BORDER\<close>, \<open>LcdUpdate\<close> of either build sends as
  data the cache bytes \<open>LoWaterMark .. HiWaterMark\<close>, which lie inside the smallest
  range holding every index stored to since the flush, and no data byte when nothing was
  stored.
\<close>

theorem LcdUpdate_dirty_range_tight:
  fixes x y :: byte and s s1 :: lcd_state
  assumes "LoWaterMark s = LCD_CACHE_SIZE - 1" and "HiWaterMark s = 0"
  defines "k \<equiv> (uint y div 8) * 84 + uint x"
  defines "W \<equiv> drop (length (Written s)) (Written s1)"
  shows
    "(uint x < LCD_X_RES \<and> uint y < LCD_Y_RES \<longrightarrow>
        (\<exists>p q. LcdPixel x y mode s = Inr (OK, p)
           \<and> LcdUpdate False p =
               Inr ([(LCD_CMD, word_of_int (0x80 OR (k mod 84))),
                     (LCD_CMD, word_of_int (0x40 OR (k div 84))),
                     (LCD_DATA, LcdCache p ! nat k)], q)
           \<and> LcdUpdate True p =
               Inr ([(LCD_CMD, 0x80 OR word_of_int (k mod 84)),
                     (LCD_CMD, 0x40 OR word_of_int (k div 84 + 1)),
                     (LCD_DATA, LcdCache p ! nat k)]
                    @ (if k mod 84 = 83
                       then [(LCD_CMD, 0x80), (LCD_CMD, 0x40 OR word_of_int (k div 84 + 2))]
                       else [])
                    @ [(LCD_CMD, 0x21), (LCD_CMD, 0x45), (LCD_CMD, 0x20)], q)))
     \<and> (do_calls font layout cs s = Some (Inr (rs, s1)) \<and> \<not> chr_rejected cs rs \<longrightarrow>
        (\<exists>w q. LcdUpdate china s1 = Inr (w, q)
           \<and> data_bytes w = map (\<lambda>j. LcdCache s1 ! nat j) [LoWaterMark s1 .. HiWaterMark s1]
           \<and> (W = [] \<longrightarrow> data_bytes w = [])
           \<and> (W \<noteq> [] \<longrightarrow> Min (set W) \<le> LoWaterMark s1 \<and> HiWaterMark s1 \<le> Max (set W))))"
proof (intro conjI impI)
  assume xy: "uint x < LCD_X_RES \<and> uint y < LCD_Y_RES"
  then have xy': "uint x < 84" "uint y < 48" by simp_all
  have k: "k = uint y div 8 * 84 + uint x" by (simp add: k_def)
  have kb: "0 \<le> k" "k < 504" using pixel_index_bounds[OF xy'] by (simp_all add: k)
  have cl: "clamp_mark k = k" using kb by (simp add: clamp_mark_def)
  have mm: "min 503 k = k" "max 0 k = k" using kb by simp_all
  obtain p where p: "LcdPixel x y mode s = Inr (OK, p)"
    and lo: "LoWaterMark p = k" and hi: "HiWaterMark p = k"
    unfolding LcdPixel_in[OF xy'] k[symmetric] by (simp add: assms(1,2) mm)
  let ?q = "p\<lparr>LoWaterMark := 503, HiWaterMark := 0, UpdateLcd := False\<rparr>"
  have std: "LcdUpdate False p =
               Inr ([(LCD_CMD, word_of_int (0x80 OR (k mod 84))),
                     (LCD_CMD, word_of_int (0x40 OR (k div 84))),
                     (LCD_DATA, LcdCache p ! nat k)], ?q)"
    by (simp add: LcdUpdate_standard lo hi cl)
  note chn = LcdUpdate_china_one[OF kb lo hi]
  show "\<exists>p q. LcdPixel x y mode s = Inr (OK, p)
           \<and> LcdUpdate False p =
               Inr ([(LCD_CMD, word_of_int (0x80 OR (k mod 84))),
                     (LCD_CMD, word_of_int (0x40 OR (k div 84))),
                     (LCD_DATA, LcdCache p ! nat k)], q)
           \<and> LcdUpdate True p =
               Inr ([(LCD_CMD, 0x80 OR word_of_int (k mod 84)),
                     (LCD_CMD, 0x40 OR word_of_int (k div 84 + 1)),
                     (LCD_DATA, LcdCache p ! nat k)]
                    @ (if k mod 84 = 83
                       then [(LCD_CMD, 0x80), (LCD_CMD, 0x40 OR word_of_int (k div 84 + 2))]
                       else [])
                    @ [(LCD_CMD, 0x21), (LCD_CMD, 0x45), (LCD_CMD, 0x20)], q)"
    using p std chn by blast
next
  assume run: "do_calls font layout cs s = Some (Inr (rs, s1)) \<and> \<not> chr_rejected cs rs"
  then have g: "grows s s1" using do_calls_grows by blast
  have s503: "LoWaterMark s = 503" using assms(1) by simp
  note r = grows_after_flush[OF g s503 assms(2)]
  have cl: "clamp_mark (LoWaterMark s1) = LoWaterMark s1"
    "clamp_mark (HiWaterMark s1) = HiWaterMark s1"
    using r(1) by (simp_all add: clamp_mark_id)
  obtain w where w: "LcdUpdate china s1 =
          Inr (w, s1\<lparr>LoWaterMark := 503, HiWaterMark := 0, UpdateLcd := False\<rparr>)"
       "data_bytes w = map (\<lambda>j. LcdCache s1 ! nat j) [LoWaterMark s1 .. HiWaterMark s1]"
    using LcdUpdate_any[of china s1] unfolding cl by blast
  have e: "W = [] \<longrightarrow> data_bytes w = []"
    using r(2) w(2) unfolding W_def by auto
  have ne: "W \<noteq> [] \<longrightarrow> Min (set W) \<le> LoWaterMark s1 \<and> HiWaterMark s1 \<le> Max (set W)"
    using r(3) unfolding W_def by blast
  show "\<exists>w q. LcdUpdate china s1 = Inr (w, q)
           \<and> data_bytes w = map (\<lambda>j. LcdCache s1 ! nat j) [LoWaterMark s1 .. HiWaterMark s1]
           \<and> (W = [] \<longrightarrow> data_bytes w = [])
           \<and> (W \<noteq> [] \<longrightarrow> Min (set W) \<le> LoWaterMark s1 \<and> HiWaterMark s1 \<le> Max (set W))"
    using w e ne by blast
qed

theorem LcdUpdate_dirty_range_tight_witness:
  "LoWaterMark ready_state = LCD_CACHE_SIZE - 1 \<and> HiWaterMark ready_state = 0
   \<and> uint (10 :: byte) < LCD_X_RES \<and> uint (10 :: byte) < LCD_Y_RES
   \<and> (\<exists>p q. LcdPixel 10 10 PIXEL_ON ready_state = Inr (OK, p)
         \<and> LcdUpdate False p
             = Inr ([(LCD_CMD, 0x8A), (LCD_CMD, 0x41), (LCD_DATA, LcdCache p ! 94)], q)
         \<and> LcdUpdate True p
             = Inr ([(LCD_CMD, 0x8A), (LCD_CMD, 0x42), (LCD_DATA, LcdCache p ! 94),
                     (LCD_CMD, 0x21), (LCD_CMD, 0x45), (LCD_CMD, 0x20)], q))
   \<and> (\<exists>s1. do_calls sample_font sample_layout
               [CallLine 0 0 1 0 PIXEL_ON, CallPixel 3 20 PIXEL_ON, CallGotoXYFont 1 1,
                CallStr FONT_1X [0x41, 0x00]] ready_state
             = Some (Inr ([OK, OK, OK, OK], s1))
         \<and> \<not> chr_rejected
               [CallLine 0 0 1 0 PIXEL_ON, CallPixel 3 20 PIXEL_ON, CallGotoXYFont 1 1,
                CallStr FONT_1X [0x41, 0x00]] [OK, OK, OK, OK]
         \<and> drop (length (Written ready_state)) (Written s1)
             = [0, 1, 171, 90, 91, 92, 93, 94, 95]
         \<and> LoWaterMark s1 = 0 \<and> HiWaterMark s1 = 171
         \<and> (\<exists>w q. LcdUpdate False s1 = Inr (w, q) \<and> length (data_bytes w) = 172))"
proof -
  let ?cs = "[CallLine 0 0 1 0 PIXEL_ON, CallPixel 3 20 PIXEL_ON, CallGotoXYFont 1 1,
              CallStr FONT_1X [0x41, 0x00]]"
  let ?a = "\<lparr>LcdCache = (replicate 504 0)[0 := 1, 1 := 1], LoWaterMark = 0, HiWaterMark = 1,
      LcdCacheIdx = 0, UpdateLcd = True, Written = [0 .. 503] @ [0, 1]\<rparr>"
  let ?b = "\<lparr>LcdCache = (replicate 504 0)[0 := 1, 1 := 1, 171 := 0x10], LoWaterMark = 0,
      HiWaterMark = 171, LcdCacheIdx = 0, UpdateLcd = True,
      Written = [0 .. 503] @ [0, 1, 171]\<rparr>"
  let ?c = "\<lparr>LcdCache = (replicate 504 0)[0 := 1, 1 := 1, 171 := 0x10], LoWaterMark = 0,
      HiWaterMark = 171, LcdCacheIdx = 90, UpdateLcd = True,
      Written = [0 .. 503] @ [0, 1, 171]\<rparr>"
  let ?s1 = "\<lparr>LcdCache = (replicate 504 0)[0 := 1, 1 := 1, 171 := 0x10, 90 := 0xFC, 91 := 0x22,
                    92 := 0x22, 93 := 0x22, 94 := 0xFC, 95 := 0x00],
      LoWaterMark = 0, HiWaterMark = 171, LcdCacheIdx = 96, UpdateLcd = True,
      Written = [0 .. 503] @ [0, 1, 171, 90, 91, 92, 93, 94, 95]\<rparr>"
  have h: "LoWaterMark ready_state = LCD_CACHE_SIZE - 1" "HiWaterMark ready_state = 0"
    by (simp_all add: ready_state_def)
  have xy: "uint (10 :: byte) < LCD_X_RES \<and> uint (10 :: byte) < LCD_Y_RES" by simp
  have c1: "LcdLine 0 0 1 0 PIXEL_ON ready_state = Some (Inr (OK, ?a))"
    by (simp add: LcdLine_def Let_def LcdPixel_in line_loop_x.simps ready_state_def)
  have c2: "LcdPixel 3 20 PIXEL_ON ?a = Inr (OK, ?b)"
    by (simp add: LcdPixel_in)
  have c3: "LcdGotoXYFont 1 1 ?b = (OK, ?c)"
    by (simp add: LcdGotoXYFont_def)
  have c4: "LcdStr sample_font FONT_1X [0x41, 0x00] ?c = Some (Inr (OK, ?s1))"
    by (simp add: LcdStr_def str_loop.simps LcdChr_def chr_loop_1x.simps chr_finish_def
          cache_write_def and_then_def Let_def sample_font_def)
  have run: "do_calls sample_font sample_layout ?cs ready_state
      = Some (Inr ([OK, OK, OK, OK], ?s1))"
    using c1 c2 c3 c4 by simp
  have nr: "\<not> chr_rejected ?cs [OK, OK, OK, OK]" by simp
  have W: "drop (length (Written ready_state)) (Written ?s1)
      = [0, 1, 171, 90, 91, 92, 93, 94, 95]"
    by (simp add: ready_state_def)
  note t = LcdUpdate_dirty_range_tight[OF h, of 10 10 PIXEL_ON sample_font sample_layout
      ?cs "[OK, OK, OK, OK]" ?s1 False]
  have a: "\<exists>p q. LcdPixel 10 10 PIXEL_ON ready_state = Inr (OK, p)
         \<and> LcdUpdate False p
             = Inr ([(LCD_CMD, 0x8A), (LCD_CMD, 0x41), (LCD_DATA, LcdCache p ! 94)], q)
         \<and> LcdUpdate True p
             = Inr ([(LCD_CMD, 0x8A), (LCD_CMD, 0x42), (LCD_DATA, LcdCache p ! 94),
                     (LCD_CMD, 0x21), (LCD_CMD, 0x45), (LCD_CMD, 0x20)], q)"
    using t[THEN conjunct1, rule_format, OF xy] by simp
  obtain w q where w: "LcdUpdate False ?s1 = Inr (w, q)"
     "data_bytes w = map (\<lambda>j. LcdCache ?s1 ! nat j) [LoWaterMark ?s1 .. HiWaterMark ?s1]"
    using t[THEN conjunct2, rule_format, OF conjI[OF run nr]] by blast
  have "length (data_bytes w) = 172" unfolding w(2) by simp
  then have b: "\<exists>w q. LcdUpdate False ?s1 = Inr (w, q) \<and> length (data_bytes w) = 172"
    using w(1) by blast
  have c: "\<exists>s1. do_calls sample_font sample_layout ?cs ready_state
             = Some (Inr ([OK, OK, OK, OK], s1))
         \<and> \<not> chr_rejected ?cs [OK, OK, OK, OK]
         \<and> drop (length (Written ready_state)) (Written s1)
             = [0, 1, 171, 90, 91, 92, 93, 94, 95]
         \<and> LoWaterMark s1 = 0 \<and> HiWaterMark s1 = 171
         \<and> (\<exists>w q. LcdUpdate False s1 = Inr (w, q) \<and> length (data_bytes w) = 172)"
    using run nr W b by (intro exI[of _ ?s1]) simp
  show ?thesis
    using h xy a c by blast
qed

text \<open>
  The unamended claim fails in four ways. After a rejected \<open>LcdChr\<close>: in the state
  \<open>LcdInit\<close> leaves, \<open>LcdChr(FONT_2X, 'A')\<close> returns \<open>OUT_OF_BORDER\<close> and stores
  nothing, but lowers \<open>LoWaterMark\<close> to -84, and the next \<open>LcdUpdate\<close> sends the byte at
  index 0 as data. Under \<open>CHINA_LCD\<close>: after \<open>LcdPixel(0, 0, PIXEL_ON)\<close> the second
  command is \<open>0x41\<close>, not \<open>0x40 | k div 84 = 0x40\<close>. After a store outside the cache:
  \<open>LcdGotoXYFont(13, 5)\<close> and \<open>LcdChr(FONT_2X, 'A')\<close> reach index 504. And
  \<open>LcdStr(FONT_1X, ...)\<close> on 256 letters never returns, so that no flush follows.
\<close>

theorem flush_sends_unwritten_byte:
  "LoWaterMark ready_state = LCD_CACHE_SIZE - 1 \<and> HiWaterMark ready_state = 0
   \<and> LcdChr sample_font FONT_2X 0x41 ready_state
        = Inr (OUT_OF_BORDER, ready_state\<lparr>LoWaterMark := - 84\<rparr>)
   \<and> drop (length (Written ready_state)) (Written (ready_state\<lparr>LoWaterMark := - 84\<rparr>)) = []
   \<and> LcdUpdate False (ready_state\<lparr>LoWaterMark := - 84\<rparr>)
        = Inr ([(LCD_CMD, 0x80), (LCD_CMD, 0x40), (LCD_DATA, 0x00)], ready_state)
   \<and> data_bytes [(LCD_CMD, 0x80), (LCD_CMD, 0x40), (LCD_DATA, 0x00)] = [0x00]
   \<and> (\<exists>p q. LcdPixel 0 0 PIXEL_ON ready_state = Inr (OK, p)
         \<and> LcdUpdate True p
             = Inr ([(LCD_CMD, 0x80), (LCD_CMD, 0x41), (LCD_DATA, 0x01),
                     (LCD_CMD, 0x21), (LCD_CMD, 0x45), (LCD_CMD, 0x20)], q))
   \<and> do_calls sample_font sample_layout [CallGotoXYFont 13 5, CallChr FONT_2X 0x41] ready_state
        = Some (Inl (OutOfBounds 504))
   \<and> do_calls sample_font sample_layout [CallStr FONT_1X (replicate 256 0x41)] ready_state
        = None"
proof -
  have a: "LcdChr sample_font FONT_2X 0x41 ready_state
        = Inr (OUT_OF_BORDER, ready_state\<lparr>LoWaterMark := - 84\<rparr>)"
    by (simp add: LcdChr_def Let_def ready_state_def)
  have b: "LcdUpdate False (ready_state\<lparr>LoWaterMark := - 84\<rparr>)
        = Inr ([(LCD_CMD, 0x80), (LCD_CMD, 0x40), (LCD_DATA, 0x00)], ready_state)"
    by (simp add: LcdUpdate_standard clamp_mark_def ready_state_def)
  let ?p = "\<lparr>LcdCache = (replicate 504 0)[0 := 1], LoWaterMark = 0, HiWaterMark = 0,
      LcdCacheIdx = 0, UpdateLcd = False, Written = [0 .. 503] @ [0]\<rparr>"
  have p: "LcdPixel 0 0 PIXEL_ON ready_state = Inr (OK, ?p)"
    by (simp add: LcdPixel_in ready_state_def)
  have "LcdUpdate True ?p
             = Inr ([(LCD_CMD, 0x80), (LCD_CMD, 0x41), (LCD_DATA, 0x01),
                     (LCD_CMD, 0x21), (LCD_CMD, 0x45), (LCD_CMD, 0x20)],
                    ?p\<lparr>LoWaterMark := 503, HiWaterMark := 0, UpdateLcd := False\<rparr>)"
    using LcdUpdate_china_one[of 0 ?p] by simp
  then have c: "\<exists>p q. LcdPixel 0 0 PIXEL_ON ready_state = Inr (OK, p)
         \<and> LcdUpdate True p
             = Inr ([(LCD_CMD, 0x80), (LCD_CMD, 0x41), (LCD_DATA, 0x01),
                     (LCD_CMD, 0x21), (LCD_CMD, 0x45), (LCD_CMD, 0x20)], q)"
    using p by blast
  have d: "do_calls sample_font sample_layout [CallGotoXYFont 13 5, CallChr FONT_2X 0x41]
        ready_state = Some (Inl (OutOfBounds 504))"
    by (simp add: LcdGotoXYFont_def LcdChr_def chr_loop_2x.simps
          cache_write_def and_then_def Let_def)
  have "LcdStr sample_font FONT_1X (replicate 256 0x41) ready_state = None"
    by (rule LcdStr_no_result) (simp_all add: ready_state_def)
  then have e: "do_calls sample_font sample_layout [CallStr FONT_1X (replicate 256 0x41)]
        ready_state = None"
    by simp
  show ?thesis using a b c d e by (simp add: data_bytes_def) (simp add: ready_state_def)
qed

end
